theory Spec2Isabelle
  imports Complex_Main
begin

section \<open>JavaScript numbers and \<open>clampInt\<close>\<close>

text \<open>
  A JavaScript \<open>number\<close> is a finite double, \<open>NaN\<close> or one of the two infinities.
  Every finite double is a rational, and the three operations \<open>clampInt\<close> uses
  (\<open>Math.trunc\<close>, \<open>Math.max\<close>, \<open>Math.min\<close>) return one of their arguments or an
  integer of no larger magnitude, so none of them rounds: the finite values are
  modelled as \<^typ>\<open>rat\<close>. The two zeros of a double are one value here; they compare
  equal in JavaScript as well.
\<close>

datatype number = Num rat | NaN | PosInfinity | NegInfinity

text \<open>\<open>a <= b\<close> on numbers: false whenever an operand is \<open>NaN\<close>.\<close>

fun js_le :: "number \<Rightarrow> number \<Rightarrow> bool" where
  "js_le NaN _ = False"
| "js_le _ NaN = False"
| "js_le NegInfinity _ = True"
| "js_le _ PosInfinity = True"
| "js_le (Num a) (Num b) = (a \<le> b)"
| "js_le (Num a) NegInfinity = False"
| "js_le PosInfinity (Num b) = False"
| "js_le PosInfinity NegInfinity = False"

text \<open>\<open>Math.max\<close> and \<open>Math.min\<close> of two numbers: \<open>NaN\<close> when an operand is \<open>NaN\<close>.\<close>

fun Math_max :: "number \<Rightarrow> number \<Rightarrow> number" where
  "Math_max NaN _ = NaN"
| "Math_max _ NaN = NaN"
| "Math_max a b = (if js_le a b then b else a)"

fun Math_min :: "number \<Rightarrow> number \<Rightarrow> number" where
  "Math_min NaN _ = NaN"
| "Math_min _ NaN = NaN"
| "Math_min a b = (if js_le a b then a else b)"

text \<open>\<open>Math.trunc\<close>: the integer part, rounding toward zero; the non-finite values are
  returned as they are.\<close>

definition trunc_rat :: "rat \<Rightarrow> int" where
  "trunc_rat x = (if 0 \<le> x then \<lfloor>x\<rfloor> else \<lceil>x\<rceil>)"

fun Math_trunc :: "number \<Rightarrow> number" where
  "Math_trunc (Num x) = Num (of_int (trunc_rat x))"
| "Math_trunc v = v"

fun Number_isFinite :: "number \<Rightarrow> bool" where
  "Number_isFinite (Num _) = True"
| "Number_isFinite _ = False"

text \<open>
  \<^verbatim>\<open>
  function clampInt(value: number, min: number, max: number) {
    const rounded = Math.trunc(value)
    if (!Number.isFinite(rounded)) return min
    return Math.min(max, Math.max(min, rounded))
  }
  \<close>
\<close>

definition clampInt :: "number \<Rightarrow> number \<Rightarrow> number \<Rightarrow> number" where
  "clampInt v mn mx =
     (let rounded = Math_trunc v
      in if \<not> Number_isFinite rounded then mn
         else Math_min mx (Math_max mn rounded))"

definition DEFAULT_BATCH_SIZE :: number where "DEFAULT_BATCH_SIZE = Num 50"
definition MAX_BATCH_SIZE :: number where "MAX_BATCH_SIZE = Num 200"
definition DEFAULT_MAX_BATCHES :: number where "DEFAULT_MAX_BATCHES = Num 20"
definition MAX_MAX_BATCHES :: number where "MAX_MAX_BATCHES = Num 200"

text \<open>A clamped number used as a count (a page size, a loop bound).\<close>

fun count_of :: "number \<Rightarrow> nat" where
  "count_of (Num x) = nat \<lfloor>x\<rfloor>"
| "count_of _ = 0"

section \<open>The document store\<close>

text \<open>
  The store (Convex) is an external collaborator; the model keeps what the maintenance
  code uses of it. A table holds documents under system-assigned identities: a
  document's \<open>_id\<close> is its position in the table, \<open>None\<close> marks a position whose
  document is gone (deleted, or never written), and \<open>insert\<close> appends. The default
  order of a query (\<open>order('asc')\<close>) is the order of the positions.

  The store's \<open>patch\<close> and \<open>delete\<close> throw on an identity that has no document, and
  the mutation that called them is rolled back. The tables have no such failure:
  \<open>db_patch\<close> and \<open>db_delete\<close> leave the table as it is there. So the model follows
  the code only where every identity patched or deleted has a document at that
  moment, and for \<open>delete\<close> in a loop, where the identities listed are distinct. The
  orchestrators call the appliers with identities read from the store that is then
  mutated (lemma \<open>fingerprintItem_ids\<close> for the entries deleted); what is proved of
  an applier called by itself assumes it of the identities listed.
\<close>

type_synonym 'a table = "'a option list"

definition db_get :: "'a table \<Rightarrow> nat \<Rightarrow> 'a option" where
  "db_get t i = (if i < length t then t ! i else None)"

definition db_patch :: "'a table \<Rightarrow> nat \<Rightarrow> ('a \<Rightarrow> 'a) \<Rightarrow> 'a table" where
  "db_patch t i f = (case db_get t i of None \<Rightarrow> t | Some d \<Rightarrow> t[i := Some (f d)])"

definition db_delete :: "'a table \<Rightarrow> nat \<Rightarrow> 'a table" where
  "db_delete t i = t[i := None]"

definition db_insert :: "'a table \<Rightarrow> 'a \<Rightarrow> 'a table" where
  "db_insert t d = t @ [Some d]"

fun docs_from :: "nat \<Rightarrow> 'a table \<Rightarrow> (nat \<times> 'a) list" where
  "docs_from i [] = []"
| "docs_from i (None # t) = docs_from (Suc i) t"
| "docs_from i (Some d # t) = (i, d) # docs_from (Suc i) t"

text \<open>The documents of a table with their identities, in ascending order.\<close>

definition db_docs :: "'a table \<Rightarrow> (nat \<times> 'a) list" where
  "db_docs t = docs_from 0 t"

record 'i PageResult =
  items :: "'i list"
  cursor :: "nat option"
  isDone :: bool

text \<open>
  Modelled from the spec: \<open>paginate\<close> is the store's, not this repository's. The spec
  (section 3) gives the cursor as an opaque token correlated with the ascending
  order, \<open>null\<close> meaning the start, and \<open>isDone = true\<close> meaning that no further
  page exists. Here the token is the number of documents already returned.
\<close>

definition paginate :: "'a table \<Rightarrow> nat option \<Rightarrow> nat \<Rightarrow> (nat \<times> 'a) PageResult" where
  "paginate t c numItems =
     (let pos = (case c of None \<Rightarrow> 0 | Some k \<Rightarrow> k);
          rest = drop pos (db_docs t);
          page = take numItems rest
      in \<lparr>items = page, cursor = Some (pos + length page), isDone = (length rest \<le> numItems)\<rparr>)"

record skill_file =
  path :: string
  sha256 :: string
  storageId :: nat

record skill =
  latestVersionId :: "nat option"
  summary :: "string option"
  updatedAt :: nat

record 'p skillVersion =
  v_skillId :: nat
  files :: "skill_file list"
  parsed :: 'p
  fingerprint :: "string option"

record fingerprintEntry =
  e_skillId :: nat
  e_versionId :: nat
  e_fingerprint :: string
  createdAt :: nat

text \<open>The three tables and the blob storage (a blob is read as its text).\<close>

record 'p store =
  skills :: "skill table"
  skillVersions :: "'p skillVersion table"
  skillVersionFingerprints :: "fingerprintEntry table"
  storage :: "nat \<Rightarrow> string option"

record BackfillActionArgs =
  dryRun :: "bool option"
  batchSize :: "number option"
  maxBatches :: "number option"

text \<open>JavaScript truthiness of an optional string: \<open>undefined\<close> and \<open>''\<close> are falsy.\<close>

definition truthy :: "string option \<Rightarrow> bool" where
  "truthy s = (case s of None \<Rightarrow> False | Some x \<Rightarrow> x \<noteq> [])"

text \<open>\<open>toLowerCase\<close>, on paths of ASCII characters.\<close>

definition toLowerCase_char :: "char \<Rightarrow> char" where
  "toLowerCase_char c =
     (case map_of (zip ''ABCDEFGHIJKLMNOPQRSTUVWXYZ'' ''abcdefghijklmnopqrstuvwxyz'') c of
        None \<Rightarrow> c
      | Some l \<Rightarrow> l)"

definition toLowerCase :: "string \<Rightarrow> string" where
  "toLowerCase s = map toLowerCase_char s"

text \<open>\<open>args.batchSize ?? DEFAULT_BATCH_SIZE\<close>, clamped, as both page fetchers and both
  orchestrators compute it; and the same for \<open>maxBatches\<close>.\<close>

definition clampBatchSize :: "number option \<Rightarrow> number" where
  "clampBatchSize b =
     clampInt (case b of None \<Rightarrow> DEFAULT_BATCH_SIZE | Some x \<Rightarrow> x) (Num 1) MAX_BATCH_SIZE"

definition clampMaxBatches :: "number option \<Rightarrow> number" where
  "clampMaxBatches b =
     clampInt (case b of None \<Rightarrow> DEFAULT_MAX_BATCHES | Some x \<Rightarrow> x) (Num 1) MAX_MAX_BATCHES"

definition incomplete :: string where
  "incomplete = ''Backfill incomplete (maxBatches reached)''"

section \<open>Summary backfill\<close>

datatype 'p BackfillPageItem =
    ItemOk nat nat "string option" 'p nat
  | MissingLatestVersion nat
  | MissingVersionDoc nat nat
  | MissingReadme nat nat

record BackfillStats =
  skillsScanned :: nat
  skillsPatched :: nat
  versionsPatched :: nat
  missingLatestVersion :: nat
  missingReadme :: nat
  missingStorageBlob :: nat

definition isReadme :: "skill_file \<Rightarrow> bool" where
  "isReadme file =
     (toLowerCase (path file) = ''skill.md'' \<or> toLowerCase (path file) = ''skills.md'')"

text \<open>The body of the page fetcher's loop: one item per skill of the page. The
  arguments of \<open>ItemOk\<close> are \<open>skillId\<close>, \<open>versionId\<close>, \<open>skillSummary\<close>,
  \<open>versionParsed\<close>, \<open>readmeStorageId\<close>.\<close>

definition classifySkill :: "'p store \<Rightarrow> nat \<times> skill \<Rightarrow> 'p BackfillPageItem" where
  "classifySkill st sk =
     (case latestVersionId (snd sk) of
        None \<Rightarrow> MissingLatestVersion (fst sk)
      | Some vid \<Rightarrow>
          (case db_get (skillVersions st) vid of
             None \<Rightarrow> MissingVersionDoc (fst sk) vid
           | Some version \<Rightarrow>
               (case List.find isReadme (files version) of
                  None \<Rightarrow> MissingReadme (fst sk) vid
                | Some readmeFile \<Rightarrow>
                    ItemOk (fst sk) vid (summary (snd sk)) (parsed version)
                      (storageId readmeFile))))"

definition getSkillBackfillPageInternal ::
  "'p store \<Rightarrow> nat option \<Rightarrow> number option \<Rightarrow> 'p BackfillPageItem PageResult" where
  "getSkillBackfillPageInternal st c b =
     (let n = clampBatchSize b;
          pg = paginate (skills st) c (count_of n)
      in \<lparr>items = map (classifySkill st) (items pg), cursor = cursor pg, isDone = isDone pg\<rparr>)"

text \<open>The patch applier; it always answers \<open>{ok: true}\<close>, so the model returns the
  store alone. \<open>now\<close> is the value \<open>Date.now()\<close> reads.\<close>

definition applySkillBackfillPatchInternal ::
  "nat \<Rightarrow> nat \<Rightarrow> nat \<Rightarrow> string option \<Rightarrow> 'p option \<Rightarrow> 'p store \<Rightarrow> 'p store" where
  "applySkillBackfillPatchInternal now sid vid summ prs st =
     (let st1 = (case summ of
                   None \<Rightarrow> st
                 | Some s \<Rightarrow> st\<lparr>skills := db_patch (skills st) sid
                                 (\<lambda>d. d\<lparr>summary := Some s, updatedAt := now\<rparr>)\<rparr>)
      in (case prs of
            None \<Rightarrow> st1
          | Some p \<Rightarrow> st1\<lparr>skillVersions := db_patch (skillVersions st1) vid
                                 (\<lambda>d. d\<lparr>parsed := p\<rparr>)\<rparr>))"

text \<open>
  \<open>buildSkillSummaryBackfillPatch\<close> (\<open>lib/skillBackfill\<close>) is a parameter of the
  model: a function of the README text, the current summary and the current parsed
  metadata to the optional fields \<open>summary\<close> and \<open>parsed\<close> of the patch.
\<close>

type_synonym 'p patch_fn = "string \<Rightarrow> string option \<Rightarrow> 'p \<Rightarrow> string option \<times> 'p option"

text \<open>The body of the orchestrator's loop over the items of a page. The clock is read
  as the same value \<open>now\<close> at every mutation of a run; nothing below depends on it.\<close>

definition summaries_item ::
  "'p patch_fn \<Rightarrow> nat \<Rightarrow> bool \<Rightarrow> 'p BackfillPageItem \<Rightarrow> BackfillStats \<times> 'p store
    \<Rightarrow> BackfillStats \<times> 'p store" where
  "summaries_item build now dry item acc =
     (let totals = (fst acc)\<lparr>skillsScanned := skillsScanned (fst acc) + 1\<rparr>;
          st = snd acc
      in case item of
           MissingLatestVersion _ \<Rightarrow>
             (totals\<lparr>missingLatestVersion := missingLatestVersion totals + 1\<rparr>, st)
         | MissingVersionDoc _ _ \<Rightarrow>
             (totals\<lparr>missingLatestVersion := missingLatestVersion totals + 1\<rparr>, st)
         | MissingReadme _ _ \<Rightarrow>
             (totals\<lparr>missingReadme := missingReadme totals + 1\<rparr>, st)
         | ItemOk sid vid skillSummary versionParsed readmeStorageId \<Rightarrow>
             (case storage st readmeStorageId of
                None \<Rightarrow> (totals\<lparr>missingStorageBlob := missingStorageBlob totals + 1\<rparr>, st)
              | Some readmeText \<Rightarrow>
                  (let patch = build readmeText skillSummary versionParsed
                   in if \<not> truthy (fst patch) \<and> snd patch = None then (totals, st)
                      else
                        (let t1 = (if truthy (fst patch)
                                   then totals\<lparr>skillsPatched := skillsPatched totals + 1\<rparr>
                                   else totals);
                             t2 = (if snd patch \<noteq> None
                                   then t1\<lparr>versionsPatched := versionsPatched t1 + 1\<rparr>
                                   else t1)
                         in if dry then (t2, st)
                            else (t2, applySkillBackfillPatchInternal now sid vid
                                        (fst patch) (snd patch) st)))))"

text \<open>The loop \<open>for (let i = 0; i < maxBatches; i++)\<close>, by the number of batches left;
  it returns \<open>isDone\<close> with the totals and the store.\<close>

fun summaries_batches ::
  "'p patch_fn \<Rightarrow> nat \<Rightarrow> bool \<Rightarrow> number \<Rightarrow> nat \<Rightarrow> nat option \<Rightarrow> bool
    \<Rightarrow> BackfillStats \<times> 'p store \<Rightarrow> bool \<times> BackfillStats \<times> 'p store" where
  "summaries_batches build now dry bs 0 c fin acc = (fin, acc)"
| "summaries_batches build now dry bs (Suc k) c fin acc =
     (let page = getSkillBackfillPageInternal (snd acc) c (Some bs);
          acc' = fold (summaries_item build now dry) (items page) acc
      in if isDone page then (True, acc')
         else summaries_batches build now dry bs k (cursor page) False acc')"

definition no_stats :: BackfillStats where
  "no_stats = \<lparr>skillsScanned = 0, skillsPatched = 0, versionsPatched = 0,
     missingLatestVersion = 0, missingReadme = 0, missingStorageBlob = 0\<rparr>"

text \<open>The handler: the thrown \<open>ConvexError\<close> is \<open>Inl\<close> of its message, the returned
  \<open>{ok: true, stats}\<close> is \<open>Inr stats\<close>; the store is returned beside it, since the
  mutations of a run that throws have been committed one by one.\<close>

definition backfillSkillSummariesInternalHandler ::
  "'p patch_fn \<Rightarrow> nat \<Rightarrow> BackfillActionArgs \<Rightarrow> 'p store
    \<Rightarrow> (string + BackfillStats) \<times> 'p store" where
  "backfillSkillSummariesInternalHandler build now args st =
     (let dry = (dryRun args = Some True);
          bs = clampBatchSize (batchSize args);
          mb = clampMaxBatches (maxBatches args);
          r = summaries_batches build now dry bs (count_of mb) None False (no_stats, st)
      in (if \<not> fst r then Inl incomplete else Inr (fst (snd r)), snd (snd r)))"

section \<open>Fingerprint backfill\<close>

record FingerprintBackfillPageItem =
  i_skillId :: nat
  i_versionId :: nat
  versionFingerprint :: "string option"
  i_files :: "(string \<times> string) list"
  existingEntries :: "(nat \<times> string) list"

record FingerprintBackfillStats =
  versionsScanned :: nat
  fp_versionsPatched :: nat
  fingerprintsInserted :: nat
  fingerprintMismatches :: nat

text \<open>The index query \<open>by_version\<close>: the entries of one version, in ascending order.\<close>

definition entriesByVersion :: "'p store \<Rightarrow> nat \<Rightarrow> (nat \<times> fingerprintEntry) list" where
  "entriesByVersion st vid =
     filter (\<lambda>e. e_versionId (snd e) = vid) (db_docs (skillVersionFingerprints st))"

text \<open>The body of the page fetcher's loop: the work item of a version, or \<open>None\<close> when
  the loop continues without pushing one. A \<open>Set\<close> of strings is the list of its
  distinct members.\<close>

definition fingerprintItem ::
  "'p store \<Rightarrow> nat \<times> 'p skillVersion \<Rightarrow> FingerprintBackfillPageItem option" where
  "fingerprintItem st ver =
     (let existing = take 20 (entriesByVersion st (fst ver));
          normalizedFiles = map (\<lambda>file. (path file, sha256 file)) (files (snd ver));
          hasAnyEntry = (0 < length existing);
          entryFingerprints = remdups (map (\<lambda>entry. e_fingerprint (snd entry)) existing);
          hasFingerprintMismatch =
            (case fingerprint (snd ver) of
               None \<Rightarrow> False
             | Some f \<Rightarrow> hasAnyEntry \<and>
                 (length entryFingerprints \<noteq> 1 \<or> f \<notin> set entryFingerprints));
          needsFingerprintField = (\<not> truthy (fingerprint (snd ver)));
          needsFingerprintEntry = (\<not> hasAnyEntry)
      in if \<not> needsFingerprintField \<and> \<not> needsFingerprintEntry \<and> \<not> hasFingerprintMismatch
         then None
         else Some \<lparr>i_skillId = v_skillId (snd ver), i_versionId = fst ver,
                     versionFingerprint = fingerprint (snd ver), i_files = normalizedFiles,
                     existingEntries =
                       map (\<lambda>entry. (fst entry, e_fingerprint (snd entry))) existing\<rparr>)"

definition getSkillFingerprintBackfillPageInternal ::
  "'p store \<Rightarrow> nat option \<Rightarrow> number option \<Rightarrow> FingerprintBackfillPageItem PageResult" where
  "getSkillFingerprintBackfillPageInternal st c b =
     (let n = clampBatchSize b;
          pg = paginate (skillVersions st) c (count_of n)
      in \<lparr>items = List.map_filter (fingerprintItem st) (items pg),
          cursor = cursor pg, isDone = isDone pg\<rparr>)"

text \<open>The patch applier: \<open>{ok: false, reason: 'missingVersion'}\<close> is \<open>Inl\<close> of the
  reason, \<open>{ok: true}\<close> is \<open>Inr ()\<close>.\<close>

definition applySkillFingerprintBackfillPatchInternal ::
  "nat \<Rightarrow> nat \<Rightarrow> string \<Rightarrow> bool \<Rightarrow> bool \<Rightarrow> nat list option \<Rightarrow> 'p store
    \<Rightarrow> (string + unit) \<times> 'p store" where
  "applySkillFingerprintBackfillPatchInternal now vid fp patchVersion replaceEntries
       existingEntryIds st =
     (case db_get (skillVersions st) vid of
        None \<Rightarrow> (Inl ''missingVersion'', st)
      | Some version \<Rightarrow>
          (let st1 = (if patchVersion
                      then st\<lparr>skillVersions := db_patch (skillVersions st) vid
                                  (\<lambda>d. d\<lparr>fingerprint := Some fp\<rparr>)\<rparr>
                      else st);
               st2 = (if replaceEntries
                      then (let existing = (case existingEntryIds of None \<Rightarrow> [] | Some l \<Rightarrow> l);
                                t = fold (\<lambda>i t. db_delete t i) existing
                                      (skillVersionFingerprints st1)
                            in st1\<lparr>skillVersionFingerprints := db_insert t
                                 \<lparr>e_skillId = v_skillId version, e_versionId = vid,
                                  e_fingerprint = fp, createdAt = now\<rparr>\<rparr>)
                      else st1)
           in (Inr (), st2)))"

text \<open>
  \<open>hashSkillFiles\<close> (\<open>lib/skills\<close>) is a parameter of the model: a function of the
  list of \<open>{path, sha256}\<close> to the fingerprint.
\<close>

type_synonym hash_fn = "(string \<times> string) list \<Rightarrow> string"

text \<open>The body of the orchestrator's loop over the items of a page; the applier's
  answer is dropped, as the source drops it.\<close>

definition fingerprints_item ::
  "hash_fn \<Rightarrow> nat \<Rightarrow> bool \<Rightarrow> FingerprintBackfillPageItem
    \<Rightarrow> FingerprintBackfillStats \<times> 'p store \<Rightarrow> FingerprintBackfillStats \<times> 'p store" where
  "fingerprints_item hashSkillFiles now dry item acc =
     (let totals = (fst acc)\<lparr>versionsScanned := versionsScanned (fst acc) + 1\<rparr>;
          st = snd acc;
          fp = hashSkillFiles (i_files item);
          existingFingerprints = remdups (map snd (existingEntries item));
          hasAnyEntry = (0 < length (existingEntries item));
          entryIsCorrect = (hasAnyEntry \<and> length existingFingerprints = 1
                              \<and> fp \<in> set existingFingerprints);
          versionFingerprintIsCorrect = (versionFingerprint item = Some fp);
          t1 = (if hasAnyEntry \<and> \<not> entryIsCorrect
                then totals\<lparr>fingerprintMismatches := fingerprintMismatches totals + 1\<rparr>
                else totals);
          shouldPatchVersion = (\<not> versionFingerprintIsCorrect);
          shouldReplaceEntries = (\<not> entryIsCorrect)
      in if \<not> shouldPatchVersion \<and> \<not> shouldReplaceEntries then (t1, st)
         else
           (let t2 = (if shouldPatchVersion
                      then t1\<lparr>fp_versionsPatched := fp_versionsPatched t1 + 1\<rparr> else t1);
                t3 = (if shouldReplaceEntries
                      then t2\<lparr>fingerprintsInserted := fingerprintsInserted t2 + 1\<rparr> else t2)
            in if dry then (t3, st)
               else (t3, snd (applySkillFingerprintBackfillPatchInternal now (i_versionId item)
                                fp shouldPatchVersion shouldReplaceEntries
                                (Some (if shouldReplaceEntries
                                       then map fst (existingEntries item) else []))
                                st))))"

fun fingerprints_batches ::
  "hash_fn \<Rightarrow> nat \<Rightarrow> bool \<Rightarrow> number \<Rightarrow> nat \<Rightarrow> nat option \<Rightarrow> bool
    \<Rightarrow> FingerprintBackfillStats \<times> 'p store \<Rightarrow> bool \<times> FingerprintBackfillStats \<times> 'p store" where
  "fingerprints_batches hashSkillFiles now dry bs 0 c fin acc = (fin, acc)"
| "fingerprints_batches hashSkillFiles now dry bs (Suc k) c fin acc =
     (let page = getSkillFingerprintBackfillPageInternal (snd acc) c (Some bs);
          acc' = fold (fingerprints_item hashSkillFiles now dry) (items page) acc
      in if isDone page then (True, acc')
         else fingerprints_batches hashSkillFiles now dry bs k (cursor page) False acc')"

definition no_fp_stats :: FingerprintBackfillStats where
  "no_fp_stats = \<lparr>versionsScanned = 0, fp_versionsPatched = 0, fingerprintsInserted = 0,
     fingerprintMismatches = 0\<rparr>"

definition backfillSkillFingerprintsInternalHandler ::
  "hash_fn \<Rightarrow> nat \<Rightarrow> BackfillActionArgs \<Rightarrow> 'p store
    \<Rightarrow> (string + FingerprintBackfillStats) \<times> 'p store" where
  "backfillSkillFingerprintsInternalHandler hashSkillFiles now args st =
     (let dry = (dryRun args = Some True);
          bs = clampBatchSize (batchSize args);
          mb = clampMaxBatches (maxBatches args);
          r = fingerprints_batches hashSkillFiles now dry bs (count_of mb) None False
                (no_fp_stats, st)
      in (if \<not> fst r then Inl incomplete else Inr (fst (snd r)), snd (snd r)))"

section \<open>Instances of the parameters, and stores to evaluate the model on\<close>

text \<open>
  Modelled from the spec: \<open>hashSkillFiles\<close> (\<open>lib/skills\<close>) is not under \<open>src/\<close>.
  The spec (section 4.5) gives it as a stable pure function of the file list, sensitive
  to order and content. Where the model is evaluated on a concrete store, the
  fingerprint of a file list is the list of its paths and digests, joined in order.
\<close>

definition hashSkillFiles_model :: hash_fn where
  "hashSkillFiles_model fs = concat (map (\<lambda>f. fst f @ '':'' @ snd f @ '';'') fs)"

text \<open>
  Modelled from the spec: \<open>buildSkillSummaryBackfillPatch\<close> (\<open>lib/skillBackfill\<close>) is
  not under \<open>src/\<close>. The spec (section 4.2) gives it as a pure function of the README
  text, the current summary and the current parsed metadata, whose patch has no field
  when the item already matches the state derived from the README. Where the model is
  evaluated on a concrete store, the summary and the parsed metadata derived from a
  README are both its text.
\<close>

definition buildSkillSummaryBackfillPatch_model :: "string patch_fn" where
  "buildSkillSummaryBackfillPatch_model readmeText currentSummary currentParsed =
     ((if currentSummary = Some readmeText then None else Some readmeText),
      (if currentParsed = readmeText then None else Some readmeText))"

definition example_store :: "string store" where
  "example_store =
     \<lparr>skills = [Some \<lparr>latestVersionId = Some 0, summary = None, updatedAt = 0\<rparr>,
                Some \<lparr>latestVersionId = None, summary = None, updatedAt = 0\<rparr>,
                Some \<lparr>latestVersionId = Some 5, summary = None, updatedAt = 0\<rparr>,
                Some \<lparr>latestVersionId = Some 1, summary = Some ''s'', updatedAt = 0\<rparr>],
      skillVersions =
        [Some \<lparr>v_skillId = 0,
               files = [\<lparr>path = ''x.ts'', sha256 = ''b'', storageId = 8\<rparr>,
                        \<lparr>path = ''SKILL.md'', sha256 = ''a'', storageId = 7\<rparr>],
               parsed = ''old'', fingerprint = None\<rparr>,
         Some \<lparr>v_skillId = 3,
               files = [\<lparr>path = ''README.md'', sha256 = ''c'', storageId = 9\<rparr>],
               parsed = ''p'', fingerprint = Some ''f''\<rparr>],
      skillVersionFingerprints =
        [Some \<lparr>e_skillId = 3, e_versionId = 1, e_fingerprint = ''g'', createdAt = 1\<rparr>],
      storage = (\<lambda>i. if i = 7 then Some ''readme'' else None)\<rparr>"

definition no_args :: BackfillActionArgs where
  "no_args = \<lparr>dryRun = None, batchSize = None, maxBatches = None\<rparr>"

text \<open>The emission condition in the words of the specification (section 4.4), read
  over all the entries of the version and with "absent" for a missing field.\<close>

definition spec_work_item :: "'p store \<Rightarrow> nat \<times> 'p skillVersion \<Rightarrow> bool" where
  "spec_work_item st ver =
     (let entries = entriesByVersion st (fst ver)
      in fingerprint (snd ver) = None \<or> entries = [] \<or>
         (fingerprint (snd ver) \<noteq> None \<and> entries \<noteq> [] \<and>
            ((\<exists>e1\<in>set entries. \<exists>e2\<in>set entries.
                 e_fingerprint (snd e1) \<noteq> e_fingerprint (snd e2))
             \<or> (\<forall>e\<in>set entries. Some (e_fingerprint (snd e)) \<noteq> fingerprint (snd ver)))))"

text \<open>A version whose stored fingerprint is the empty string, with one entry that
  carries the empty string too.\<close>

definition empty_fingerprint_store :: "string store" where
  "empty_fingerprint_store =
     \<lparr>skills = [Some \<lparr>latestVersionId = Some 0, summary = None, updatedAt = 0\<rparr>],
      skillVersions = [Some \<lparr>v_skillId = 0, files = [], parsed = ''p'', fingerprint = Some ''''\<rparr>],
      skillVersionFingerprints =
        [Some \<lparr>e_skillId = 0, e_versionId = 0, e_fingerprint = '''', createdAt = 1\<rparr>],
      storage = (\<lambda>i. None)\<rparr>"

section \<open>The scan of a table, and one visit of a document\<close>

text \<open>The position a cursor stands for.\<close>

definition pos_of :: "nat option \<Rightarrow> nat" where
  "pos_of c = (case c of None \<Rightarrow> 0 | Some k \<Rightarrow> k)"

text \<open>Whether a scan of at most \<open>k\<close> pages of \<open>n\<close> documents, from cursor \<open>c\<close>, fetches a
  page that reports \<open>isDone\<close>: the page fetches of an orchestrator, without the work
  on the items.\<close>

fun scan_done :: "'a table \<Rightarrow> nat \<Rightarrow> nat \<Rightarrow> nat option \<Rightarrow> bool" where
  "scan_done t n 0 c = False"
| "scan_done t n (Suc k) c =
     (let pg = paginate t c n in if isDone pg then True else scan_done t n k (cursor pg))"

text \<open>One version fetched and processed on the spot: the fetcher's loop body followed
  by the orchestrator's loop body, on the same store.\<close>

definition fp_visit ::
  "hash_fn \<Rightarrow> nat \<Rightarrow> bool \<Rightarrow> nat \<times> 'p skillVersion
    \<Rightarrow> FingerprintBackfillStats \<times> 'p store \<Rightarrow> FingerprintBackfillStats \<times> 'p store" where
  "fp_visit h now dry ver acc =
     (case fingerprintItem (snd acc) ver of
        None \<Rightarrow> acc
      | Some it \<Rightarrow> fingerprints_item h now dry it acc)"

text \<open>The two verdicts of the orchestrator on a work item, and the counters an item adds.\<close>

definition item_entry_correct :: "hash_fn \<Rightarrow> FingerprintBackfillPageItem \<Rightarrow> bool" where
  "item_entry_correct h it =
     (0 < length (existingEntries it)
      \<and> length (remdups (map snd (existingEntries it))) = 1
      \<and> h (i_files it) \<in> set (remdups (map snd (existingEntries it))))"

definition item_version_correct :: "hash_fn \<Rightarrow> FingerprintBackfillPageItem \<Rightarrow> bool" where
  "item_version_correct h it = (versionFingerprint it = Some (h (i_files it)))"

definition fp_count ::
  "hash_fn \<Rightarrow> FingerprintBackfillPageItem \<Rightarrow> FingerprintBackfillStats
    \<Rightarrow> FingerprintBackfillStats" where
  "fp_count h it tot =
     tot\<lparr>versionsScanned := versionsScanned tot + 1,
         fingerprintMismatches := fingerprintMismatches tot
           + (if 0 < length (existingEntries it) \<and> \<not> item_entry_correct h it then 1 else 0),
         fp_versionsPatched := fp_versionsPatched tot
           + (if item_version_correct h it then 0 else 1),
         fingerprintsInserted := fingerprintsInserted tot
           + (if item_entry_correct h it then 0 else 1)\<rparr>"

text \<open>The effective page size and batch limit of a run.\<close>

definition effBatchSize :: "BackfillActionArgs \<Rightarrow> nat" where
  "effBatchSize args = count_of (clampBatchSize (batchSize args))"

definition effMaxBatches :: "BackfillActionArgs \<Rightarrow> nat" where
  "effMaxBatches args = count_of (clampMaxBatches (maxBatches args))"

definition small_batches :: BackfillActionArgs where
  "small_batches = \<lparr>dryRun = None, batchSize = Some (Num 1), maxBatches = Some (Num 2)\<rparr>"

text \<open>A store whose only skill has no latest version.\<close>

definition lone_skill_store :: "string store" where
  "lone_skill_store =
     \<lparr>skills = [Some \<lparr>latestVersionId = None, summary = Some ''s'', updatedAt = 3\<rparr>],
      skillVersions = [], skillVersionFingerprints = [], storage = (\<lambda>i. None)\<rparr>"

text \<open>The canonical fingerprint of a version: the hash of its files' \<open>{path, sha256}\<close>.\<close>

definition canonical :: "hash_fn \<Rightarrow> 'p skillVersion \<Rightarrow> string" where
  "canonical h v = h (map (\<lambda>file. (path file, sha256 file)) (files v))"

text \<open>A version with 21 entries, all carrying a fingerprint that is not the hash of its
  files, and no stored fingerprint.\<close>

definition crowded_store :: "string store" where
  "crowded_store =
     \<lparr>skills = [Some \<lparr>latestVersionId = Some 0, summary = None, updatedAt = 0\<rparr>],
      skillVersions =
        [Some \<lparr>v_skillId = 0, files = [\<lparr>path = ''a'', sha256 = ''1'', storageId = 0\<rparr>],
               parsed = ''p'', fingerprint = None\<rparr>],
      skillVersionFingerprints =
        replicate 21 (Some \<lparr>e_skillId = 0, e_versionId = 0, e_fingerprint = ''x'', createdAt = 1\<rparr>),
      storage = (\<lambda>i. None)\<rparr>"

text \<open>A version whose stored fingerprint and single entry agree with each other but
  not with the hash of its files.\<close>

definition stale_store :: "string store" where
  "stale_store =
     \<lparr>skills = [Some \<lparr>latestVersionId = Some 0, summary = None, updatedAt = 0\<rparr>],
      skillVersions =
        [Some \<lparr>v_skillId = 0, files = [\<lparr>path = ''a'', sha256 = ''1'', storageId = 0\<rparr>],
               parsed = ''p'', fingerprint = Some ''old''\<rparr>],
      skillVersionFingerprints =
        [Some \<lparr>e_skillId = 0, e_versionId = 0, e_fingerprint = ''old'', createdAt = 1\<rparr>],
      storage = (\<lambda>i. None)\<rparr>"

text \<open>One skill fetched and processed on the spot: the fetcher's loop body followed by
  the orchestrator's loop body, on the same store.\<close>

definition sm_visit ::
  "'p patch_fn \<Rightarrow> nat \<Rightarrow> bool \<Rightarrow> nat \<times> skill \<Rightarrow> BackfillStats \<times> 'p store
    \<Rightarrow> BackfillStats \<times> 'p store" where
  "sm_visit build now dry sk acc =
     summaries_item build now dry (classifySkill (snd acc) sk) acc"

text \<open>No two skills of a list name the same latest version.\<close>

definition no_shared_version :: "(nat \<times> skill) list \<Rightarrow> bool" where
  "no_shared_version D = distinct (List.map_filter (\<lambda>d. latestVersionId (snd d)) D)"

text \<open>Two skills that name the same latest version, whose README is in storage.\<close>

definition shared_version_store :: "string store" where
  "shared_version_store =
     \<lparr>skills = [Some \<lparr>latestVersionId = Some 0, summary = None, updatedAt = 0\<rparr>,
                Some \<lparr>latestVersionId = Some 0, summary = None, updatedAt = 0\<rparr>],
      skillVersions =
        [Some \<lparr>v_skillId = 0, files = [\<lparr>path = ''SKILL.md'', sha256 = ''a'', storageId = 7\<rparr>],
               parsed = ''old'', fingerprint = None\<rparr>],
      skillVersionFingerprints = [],
      storage = (\<lambda>i. if i = 7 then Some ''readme'' else None)\<rparr>"

definition one_by_one :: "bool \<Rightarrow> BackfillActionArgs" where
  "one_by_one dry = \<lparr>dryRun = Some dry, batchSize = Some (Num 1), maxBatches = None\<rparr>"

definition dry_args :: BackfillActionArgs where
  "dry_args = \<lparr>dryRun = Some True, batchSize = None, maxBatches = None\<rparr>"




section \<open>Properties of \<open>clampInt\<close>\<close>

lemma trunc_rat_of_int [simp]: "trunc_rat (of_int k) = k"
  by (simp add: trunc_rat_def)

lemma trunc_rat_magnitude: "\<bar>of_int (trunc_rat x)\<bar> \<le> \<bar>x\<bar> \<and> \<bar>x\<bar> < \<bar>of_int (trunc_rat x)\<bar> + 1"
proof (cases "0 \<le> x")
  case True
  then have "0 \<le> \<lfloor>x\<rfloor>" by simp
  with True show ?thesis
    by (simp add: trunc_rat_def) linarith
next
  case False
  then have "\<lceil>x\<rceil> \<le> 0" by (simp add: ceiling_le_iff)
  with False show ?thesis
    by (simp add: trunc_rat_def) linarith
qed

lemma trunc_rat_sign: "(0 \<le> x \<longrightarrow> 0 \<le> trunc_rat x) \<and> (x \<le> 0 \<longrightarrow> trunc_rat x \<le> 0)"
  by (auto simp: trunc_rat_def ceiling_le_iff)

lemma clampInt_nonfinite:
  "clampInt NaN mn mx = mn" "clampInt PosInfinity mn mx = mn" "clampInt NegInfinity mn mx = mn"
  by (simp_all add: clampInt_def)

lemma clampInt_range: "js_le mn mx \<Longrightarrow> js_le mn (clampInt v mn mx) \<and> js_le (clampInt v mn mx) mx"
  by (cases v; cases mn; cases mx) (auto simp: clampInt_def)

lemma clampInt_finite_inside:
  "js_le mn (Num (of_int (trunc_rat x))) \<Longrightarrow> js_le (Num (of_int (trunc_rat x))) mx \<Longrightarrow>
   clampInt (Num x) mn mx = Num (of_int (trunc_rat x))"
  by (cases mn; cases mx) (auto simp: clampInt_def)

text \<open>
  C9. For every input and bounds with \<open>min <= max\<close>: the result lies in \<open>[min, max]\<close>;
  every non-finite input (\<open>NaN\<close> and both infinities) gives \<open>min\<close>; a finite input is
  truncated toward zero, that is, whenever the integer \<open>t\<close> with
  \<open>|t| <= |x| < |t| + 1\<close> and the sign of \<open>x\<close> lies within the bounds, the result is
  \<open>t\<close>, and otherwise it is the bound \<open>t\<close> falls outside of; and
  \<open>clamp(500, 1, 200) = 200\<close>, \<open>clamp(0.9, 1, 200) = 1\<close>, \<open>clamp(NaN, 1, 200) = 1\<close>.
\<close>

theorem C9_clampInt:
  "(js_le mn mx \<longrightarrow> js_le mn (clampInt v mn mx) \<and> js_le (clampInt v mn mx) mx)
   \<and> (\<not> Number_isFinite v \<longrightarrow> clampInt v mn mx = mn)
   \<and> (js_le mn mx \<longrightarrow> (\<exists>t::int.
          \<bar>of_int t\<bar> \<le> \<bar>x\<bar> \<and> \<bar>x\<bar> < \<bar>of_int t\<bar> + 1 \<and> (0 \<le> x \<longrightarrow> 0 \<le> t) \<and> (x \<le> 0 \<longrightarrow> t \<le> 0)
          \<and> clampInt (Num x) mn mx =
              (if \<not> js_le mn (Num (of_int t)) then mn
               else if \<not> js_le (Num (of_int t)) mx then mx
               else Num (of_int t))))
   \<and> clampInt (Num 500) (Num 1) (Num 200) = Num 200
   \<and> clampInt (Num (9 / 10)) (Num 1) (Num 200) = Num 1
   \<and> clampInt NaN (Num 1) (Num 200) = Num 1"
proof -
  have range: "js_le mn mx \<longrightarrow> js_le mn (clampInt v mn mx) \<and> js_le (clampInt v mn mx) mx"
    using clampInt_range by blast
  have nonfin: "\<not> Number_isFinite v \<longrightarrow> clampInt v mn mx = mn"
    by (cases v) (simp_all add: clampInt_nonfinite)
  have trunc: "js_le mn mx \<longrightarrow> (\<exists>t::int.
          \<bar>of_int t\<bar> \<le> \<bar>x\<bar> \<and> \<bar>x\<bar> < \<bar>of_int t\<bar> + 1 \<and> (0 \<le> x \<longrightarrow> 0 \<le> t) \<and> (x \<le> 0 \<longrightarrow> t \<le> 0)
          \<and> clampInt (Num x) mn mx =
              (if \<not> js_le mn (Num (of_int t)) then mn
               else if \<not> js_le (Num (of_int t)) mx then mx
               else Num (of_int t)))"
  proof
    assume le: "js_le mn mx"
    have "clampInt (Num x) mn mx =
              (if \<not> js_le mn (Num (of_int (trunc_rat x))) then mn
               else if \<not> js_le (Num (of_int (trunc_rat x))) mx then mx
               else Num (of_int (trunc_rat x)))"
      using le by (cases mn; cases mx) (auto simp: clampInt_def)
    with trunc_rat_magnitude [of x] trunc_rat_sign [of x] show "\<exists>t::int.
          \<bar>of_int t\<bar> \<le> \<bar>x\<bar> \<and> \<bar>x\<bar> < \<bar>of_int t\<bar> + 1 \<and> (0 \<le> x \<longrightarrow> 0 \<le> t) \<and> (x \<le> 0 \<longrightarrow> t \<le> 0)
          \<and> clampInt (Num x) mn mx =
              (if \<not> js_le mn (Num (of_int t)) then mn
               else if \<not> js_le (Num (of_int t)) mx then mx
               else Num (of_int t))"
      by blast
  qed
  have e1: "clampInt (Num 500) (Num 1) (Num 200) = Num 200"
    by (simp add: clampInt_def trunc_rat_def)
  have e2: "clampInt (Num (9 / 10)) (Num 1) (Num 200) = Num 1"
    by (simp add: clampInt_def trunc_rat_def)
  have e3: "clampInt NaN (Num 1) (Num 200) = Num 1"
    by (simp add: clampInt_def)
  from range nonfin trunc e1 e2 e3 show ?thesis by blast
qed

theorem C9_clampInt_witness:
  "js_le (Num 1) (Num 200)
   \<and> js_le (Num 1) (clampInt (Num (-7 / 2)) (Num 1) (Num 200))
   \<and> js_le (clampInt (Num (-7 / 2)) (Num 1) (Num 200)) (Num 200)
   \<and> \<not> Number_isFinite PosInfinity
   \<and> clampInt PosInfinity (Num 1) (Num 200) = Num 1"
proof -
  have le: "js_le (Num 1) (Num 200)" by simp
  have nf: "\<not> Number_isFinite PosInfinity" by simp
  from C9_clampInt [of "Num 1" "Num 200" "Num (-7 / 2)" 0] le
  have a: "js_le (Num 1) (clampInt (Num (-7 / 2)) (Num 1) (Num 200))
     \<and> js_le (clampInt (Num (-7 / 2)) (Num 1) (Num 200)) (Num 200)"
    by blast
  from C9_clampInt [of "Num 1" "Num 200" PosInfinity 0] nf
  have b: "clampInt PosInfinity (Num 1) (Num 200) = Num 1"
    by blast
  from le nf a b show ?thesis by blast
qed

section \<open>Properties of the tables\<close>



lemma docs_from_mem:
  "(j, d) \<in> set (docs_from i t) \<longleftrightarrow> i \<le> j \<and> j < i + length t \<and> t ! (j - i) = Some d"
proof (induction i t rule: docs_from.induct)
  case (1 i)
  then show ?case by simp
next
  case (2 i t)
  then show ?case
    by (auto simp: nth_Cons' Suc_diff_le split: if_splits)
next
  case (3 i d' t)
  then show ?case
    by (auto simp: nth_Cons' Suc_diff_le split: if_splits)
qed

lemma docs_from_fst_ge: "p \<in> set (docs_from i t) \<Longrightarrow> i \<le> fst p"
  using docs_from_mem [of "fst p" "snd p" i t] by simp

lemma docs_from_distinct: "distinct (map fst (docs_from i t))"
proof (induction i t rule: docs_from.induct)
  case (3 i d t)
  have "i \<notin> fst ` set (docs_from (Suc i) t)"
    using docs_from_fst_ge [of _ "Suc i" t] by fastforce
  with 3 show ?case by simp
qed simp_all

lemma docs_from_append:
  "docs_from i (t @ u) = docs_from i t @ docs_from (i + length t) u"
  by (induction i t rule: docs_from.induct) simp_all

lemma docs_from_delete:
  "docs_from i (t[k := None]) = filter (\<lambda>p. fst p \<noteq> i + k) (docs_from i t)"
proof (induction i t arbitrary: k rule: docs_from.induct)
  case (1 i)
  then show ?case by simp
next
  case (2 i t)
  show ?case
  proof (cases k)
    case 0
    have "\<forall>p \<in> set (docs_from (Suc i) t). fst p \<noteq> i"
      using docs_from_fst_ge [of _ "Suc i" t] by fastforce
    then have "filter (\<lambda>p. fst p \<noteq> i) (docs_from (Suc i) t) = docs_from (Suc i) t"
      by (simp add: filter_id_conv)
    with 0 show ?thesis by simp
  next
    case (Suc k')
    with 2 [of k'] show ?thesis by simp
  qed
next
  case (3 i d t)
  show ?case
  proof (cases k)
    case 0
    have "\<forall>p \<in> set (docs_from (Suc i) t). fst p \<noteq> i"
      using docs_from_fst_ge [of _ "Suc i" t] by fastforce
    then have "filter (\<lambda>p. fst p \<noteq> i) (docs_from (Suc i) t) = docs_from (Suc i) t"
      by (simp add: filter_id_conv)
    with 0 show ?thesis by simp
  next
    case (Suc k')
    with 3 [of k'] show ?thesis by simp
  qed
qed

lemma docs_from_patch:
  "k < length t \<Longrightarrow> t ! k = Some d \<Longrightarrow>
   docs_from i (t[k := Some (f d)]) =
     map (\<lambda>p. if fst p = i + k then (fst p, f (snd p)) else p) (docs_from i t)"
proof (induction i t arbitrary: k rule: docs_from.induct)
  case (1 i)
  then show ?case by simp
next
  case (2 i t)
  then show ?case by (cases k) simp_all
next
  case (3 i d' t)
  show ?case
  proof (cases k)
    case 0
    have "\<forall>p \<in> set (docs_from (Suc i) t). fst p \<noteq> i"
      using docs_from_fst_ge [of _ "Suc i" t] by fastforce
    then have "map (\<lambda>p. if fst p = i then (fst p, f (snd p)) else p) (docs_from (Suc i) t)
        = docs_from (Suc i) t"
      by (simp add: map_idI)
    with 0 3 show ?thesis by simp
  next
    case (Suc k')
    with 3 show ?thesis by simp
  qed
qed

lemma db_docs_mem: "(j, d) \<in> set (db_docs t) \<longleftrightarrow> db_get t j = Some d"
  by (auto simp: db_docs_def db_get_def docs_from_mem)

lemma db_docs_distinct: "distinct (map fst (db_docs t))"
  by (simp add: db_docs_def docs_from_distinct)

lemma db_docs_insert: "db_docs (db_insert t d) = db_docs t @ [(length t, d)]"
  by (simp add: db_docs_def db_insert_def docs_from_append)

lemma db_docs_delete: "db_docs (db_delete t k) = filter (\<lambda>p. fst p \<noteq> k) (db_docs t)"
  by (simp add: db_docs_def db_delete_def docs_from_delete)

lemma db_docs_patch:
  "db_docs (db_patch t k f) = map (\<lambda>p. if fst p = k then (fst p, f (snd p)) else p) (db_docs t)"
proof (cases "db_get t k")
  case None
  then have "\<forall>p \<in> set (db_docs t). fst p \<noteq> k"
    using db_docs_mem [of _ _ t] by fastforce
  then have "map (\<lambda>p. if fst p = k then (fst p, f (snd p)) else p) (db_docs t) = db_docs t"
    by (simp add: map_idI)
  with None show ?thesis by (simp add: db_patch_def)
next
  case (Some d)
  then have "k < length t" "t ! k = Some d"
    by (auto simp: db_get_def split: if_splits)
  with Some docs_from_patch [of k t d 0 f] show ?thesis
    by (simp add: db_patch_def db_docs_def)
qed

lemma db_docs_deletes:
  "db_docs (fold (\<lambda>i t. db_delete t i) ks t) = filter (\<lambda>p. fst p \<notin> set ks) (db_docs t)"
proof (induction ks arbitrary: t)
  case Nil
  then show ?case by simp
next
  case (Cons k ks)
  then show ?case
    by (simp add: db_docs_delete)
qed

lemma db_get_patch:
  "db_get (db_patch t k f) j = (if j = k then map_option f (db_get t k) else db_get t j)"
  by (auto simp: db_patch_def db_get_def split: option.splits)

lemma length_db_patch [simp]: "length (db_patch t k f) = length t"
  by (simp add: db_patch_def split: option.splits)

lemma length_db_docs_patch [simp]: "length (db_docs (db_patch t k f)) = length (db_docs t)"
  by (simp add: db_docs_patch)

section \<open>Properties of the clamped arguments\<close>

lemmas clamp_defs = clampBatchSize_def clampMaxBatches_def clampInt_def trunc_rat_def
  DEFAULT_BATCH_SIZE_def MAX_BATCH_SIZE_def DEFAULT_MAX_BATCHES_def MAX_MAX_BATCHES_def

lemma clampInt_1_200:
  "\<exists>k. clampInt v (Num 1) (Num 200) = Num (of_int k) \<and> 1 \<le> k \<and> k \<le> 200"
proof (cases v)
  case (Num x)
  show ?thesis
  proof (cases "trunc_rat x \<le> 1")
    case True
    with Num have "clampInt v (Num 1) (Num 200) = Num (of_int 1)"
      by (auto simp: clampInt_def)
    then show ?thesis by force
  next
    case False
    show ?thesis
    proof (cases "trunc_rat x \<le> 200")
      case True
      with False Num have "clampInt v (Num 1) (Num 200) = Num (of_int (trunc_rat x))"
        by (auto simp: clampInt_def)
      with True False show ?thesis by force
    next
      case F2: False
      with False Num have "clampInt v (Num 1) (Num 200) = Num (of_int 200)"
        by (auto simp: clampInt_def)
      then show ?thesis by force
    qed
  qed
next
  case NaN
  then have "clampInt v (Num 1) (Num 200) = Num (of_int 1)" by (simp add: clampInt_def)
  then show ?thesis by force
next
  case PosInfinity
  then have "clampInt v (Num 1) (Num 200) = Num (of_int 1)" by (simp add: clampInt_def)
  then show ?thesis by force
next
  case NegInfinity
  then have "clampInt v (Num 1) (Num 200) = Num (of_int 1)" by (simp add: clampInt_def)
  then show ?thesis by force
qed

lemma clampInt_idem_1_200:
  "clampInt (clampInt v (Num 1) (Num 200)) (Num 1) (Num 200) = clampInt v (Num 1) (Num 200)"
proof -
  obtain k where k: "clampInt v (Num 1) (Num 200) = Num (of_int k)" "1 \<le> k" "k \<le> 200"
    using clampInt_1_200 by blast
  then show ?thesis by (auto simp: clampInt_def)
qed

lemma clampBatchSize_idem [simp]: "clampBatchSize (Some (clampBatchSize b)) = clampBatchSize b"
  by (simp add: clampBatchSize_def MAX_BATCH_SIZE_def clampInt_idem_1_200)

lemma count_of_clampBatchSize: "1 \<le> count_of (clampBatchSize b) \<and> count_of (clampBatchSize b) \<le> 200"
proof -
  obtain k where k: "clampBatchSize b = Num (of_int k)" "1 \<le> k" "k \<le> 200"
    unfolding clampBatchSize_def MAX_BATCH_SIZE_def using clampInt_1_200 by blast
  then show ?thesis by (auto simp: Suc_le_eq)
qed

lemma count_of_clampMaxBatches: "1 \<le> count_of (clampMaxBatches b) \<and> count_of (clampMaxBatches b) \<le> 200"
proof -
  obtain k where k: "clampMaxBatches b = Num (of_int k)" "1 \<le> k" "k \<le> 200"
    unfolding clampMaxBatches_def MAX_MAX_BATCHES_def using clampInt_1_200 by blast
  then show ?thesis by (auto simp: Suc_le_eq)
qed

section \<open>Summary backfill: the page fetcher\<close>

lemma find_first:
  "List.find P xs = Some x \<Longrightarrow> \<exists>pre post. xs = pre @ x # post \<and> P x \<and> (\<forall>y\<in>set pre. \<not> P y)"
proof (induction xs)
  case Nil
  then show ?case by simp
next
  case (Cons a xs)
  show ?case
  proof (cases "P a")
    case True
    with Cons.prems have "a = x" by simp
    with True have "a # xs = [] @ x # xs \<and> P x \<and> (\<forall>y\<in>set []. \<not> P y)" by simp
    then show ?thesis by blast
  next
    case False
    with Cons obtain pre post where "xs = pre @ x # post" "P x" "\<forall>y\<in>set pre. \<not> P y"
      by auto
    with False have "a # xs = (a # pre) @ x # post \<and> P x \<and> (\<forall>y\<in>set (a # pre). \<not> P y)"
      by simp
    then show ?thesis by blast
  qed
qed

lemma classifySkill_cases:
  "(latestVersionId sk = None \<longrightarrow> classifySkill st (sid, sk) = MissingLatestVersion sid) \<and>
   (\<forall>vid. latestVersionId sk = Some vid \<longrightarrow>
      (db_get (skillVersions st) vid = None \<longrightarrow>
         classifySkill st (sid, sk) = MissingVersionDoc sid vid) \<and>
      (\<forall>v. db_get (skillVersions st) vid = Some v \<longrightarrow>
         ((\<forall>f\<in>set (files v). \<not> isReadme f) \<longrightarrow>
            classifySkill st (sid, sk) = MissingReadme sid vid) \<and>
         ((\<exists>f\<in>set (files v). isReadme f) \<longrightarrow>
            (\<exists>pre f post. files v = pre @ f # post \<and> isReadme f \<and> (\<forall>g\<in>set pre. \<not> isReadme g)
               \<and> classifySkill st (sid, sk) =
                   ItemOk sid vid (summary sk) (parsed v) (storageId f)))))"
proof (intro conjI allI impI)
  assume "latestVersionId sk = None"
  then show "classifySkill st (sid, sk) = MissingLatestVersion sid"
    by (simp add: classifySkill_def)
next
  fix vid assume "latestVersionId sk = Some vid" "db_get (skillVersions st) vid = None"
  then show "classifySkill st (sid, sk) = MissingVersionDoc sid vid"
    by (simp add: classifySkill_def)
next
  fix vid v assume l: "latestVersionId sk = Some vid" "db_get (skillVersions st) vid = Some v"
    and n: "\<forall>f\<in>set (files v). \<not> isReadme f"
  from n have "List.find isReadme (files v) = None"
    by (simp add: find_None_iff)
  with l show "classifySkill st (sid, sk) = MissingReadme sid vid"
    by (simp add: classifySkill_def)
next
  fix vid v assume l: "latestVersionId sk = Some vid" "db_get (skillVersions st) vid = Some v"
    and e: "\<exists>f\<in>set (files v). isReadme f"
  from e have "List.find isReadme (files v) \<noteq> None"
    by (auto simp: find_None_iff)
  then obtain f where f: "List.find isReadme (files v) = Some f" by blast
  from find_first [OF f] obtain pre post where
    p: "files v = pre @ f # post" "isReadme f" "\<forall>y\<in>set pre. \<not> isReadme y"
    by blast
  from l f have "classifySkill st (sid, sk) = ItemOk sid vid (summary sk) (parsed v) (storageId f)"
    by (simp add: classifySkill_def)
  with p show "\<exists>pre f post. files v = pre @ f # post \<and> isReadme f \<and> (\<forall>g\<in>set pre. \<not> isReadme g)
               \<and> classifySkill st (sid, sk) =
                   ItemOk sid vid (summary sk) (parsed v) (storageId f)"
    by blast
qed

text \<open>
  C5. The summary page fetcher answers one item per skill of the fetched page, in the
  order of the page. The item of a skill is \<open>missingLatestVersion\<close> when its
  \<open>latestVersionId\<close> is absent; \<open>missingVersionDoc\<close> when the version it names has no
  record; \<open>missingReadme\<close> when no file of the version has a path whose lower case is
  \<open>skill.md\<close> or \<open>skills.md\<close>; and otherwise \<open>ok\<close>, with the skill's summary, the
  version's parsed metadata and the storage reference of the first such file. The
  fetcher is a function of the store to its answer: it returns no store, as the
  source's query only reads.
\<close>

theorem C5_summary_page_classification:
  assumes "page = items (paginate (skills st) c (count_of (clampBatchSize b)))"
    and "its = items (getSkillBackfillPageInternal st c b)"
    and "i < length page" and "page ! i = (sid, sk)"
  shows "length its = length page \<and>
    (latestVersionId sk = None \<longrightarrow> its ! i = MissingLatestVersion sid) \<and>
    (\<forall>vid. latestVersionId sk = Some vid \<longrightarrow>
       (db_get (skillVersions st) vid = None \<longrightarrow> its ! i = MissingVersionDoc sid vid) \<and>
       (\<forall>v. db_get (skillVersions st) vid = Some v \<longrightarrow>
          ((\<forall>f\<in>set (files v). toLowerCase (path f) \<noteq> ''skill.md''
               \<and> toLowerCase (path f) \<noteq> ''skills.md'') \<longrightarrow>
             its ! i = MissingReadme sid vid) \<and>
          ((\<exists>f\<in>set (files v). toLowerCase (path f) = ''skill.md''
               \<or> toLowerCase (path f) = ''skills.md'') \<longrightarrow>
             (\<exists>pre f post. files v = pre @ f # post
                \<and> (toLowerCase (path f) = ''skill.md'' \<or> toLowerCase (path f) = ''skills.md'')
                \<and> (\<forall>g\<in>set pre. toLowerCase (path g) \<noteq> ''skill.md''
                       \<and> toLowerCase (path g) \<noteq> ''skills.md'')
                \<and> its ! i = ItemOk sid vid (summary sk) (parsed v) (storageId f)))))"
proof -
  have its: "its = map (classifySkill st) page"
    using assms(1,2) by (simp add: getSkillBackfillPageInternal_def Let_def)
  have len: "length its = length page" by (simp add: its)
  have it: "its ! i = classifySkill st (sid, sk)"
    using assms(3,4) by (simp add: its)
  show ?thesis
    unfolding it using len classifySkill_cases [of sk st sid]
    by (simp add: isReadme_def)
qed

lemmas store_eval = db_docs_def db_get_def paginate_def classifySkill_def isReadme_def
  toLowerCase_def toLowerCase_char_def getSkillBackfillPageInternal_def Let_def

lemma example_page:
  "items (paginate (skills example_store) None (count_of (clampBatchSize None))) =
     [(0, \<lparr>latestVersionId = Some 0, summary = None, updatedAt = 0\<rparr>),
      (1, \<lparr>latestVersionId = None, summary = None, updatedAt = 0\<rparr>),
      (2, \<lparr>latestVersionId = Some 5, summary = None, updatedAt = 0\<rparr>),
      (3, \<lparr>latestVersionId = Some 1, summary = Some ''s'', updatedAt = 0\<rparr>)]"
  by (simp add: example_store_def store_eval clamp_defs)

theorem C5_summary_page_classification_witness:
  "items (getSkillBackfillPageInternal example_store None None) ! 0 = ItemOk 0 0 None ''old'' 7
   \<and> items (getSkillBackfillPageInternal example_store None None) ! 1 = MissingLatestVersion 1
   \<and> items (getSkillBackfillPageInternal example_store None None) ! 2 = MissingVersionDoc 2 5
   \<and> items (getSkillBackfillPageInternal example_store None None) ! 3 = MissingReadme 3 1
   \<and> length (items (getSkillBackfillPageInternal example_store None None)) = 4"
proof -
  have v1: "db_get (skillVersions example_store) 1 =
      Some \<lparr>v_skillId = 3,
               files = [\<lparr>path = ''README.md'', sha256 = ''c'', storageId = 9\<rparr>],
               parsed = ''p'', fingerprint = Some ''f''\<rparr>"
    by (simp add: example_store_def db_get_def)
  have v5: "db_get (skillVersions example_store) 5 = None"
    by (simp add: example_store_def db_get_def)
  have i1: "items (getSkillBackfillPageInternal example_store None None) ! 1 = MissingLatestVersion 1
      \<and> length (items (getSkillBackfillPageInternal example_store None None)) = 4"
    using C5_summary_page_classification [OF example_page [symmetric] refl, of 1 1
        "\<lparr>latestVersionId = None, summary = None, updatedAt = 0\<rparr>"]
    by simp
  have i2: "items (getSkillBackfillPageInternal example_store None None) ! 2 = MissingVersionDoc 2 5"
    using C5_summary_page_classification [OF example_page [symmetric] refl, of 2 2
        "\<lparr>latestVersionId = Some 5, summary = None, updatedAt = 0\<rparr>"] v5
    by simp
  have i3: "items (getSkillBackfillPageInternal example_store None None) ! 3 = MissingReadme 3 1"
    using C5_summary_page_classification [OF example_page [symmetric] refl, of 3 3
        "\<lparr>latestVersionId = Some 1, summary = Some ''s'', updatedAt = 0\<rparr>"] v1
    by (simp add: toLowerCase_def toLowerCase_char_def)
  have v0: "db_get (skillVersions example_store) 0 =
      Some \<lparr>v_skillId = 0,
               files = [\<lparr>path = ''x.ts'', sha256 = ''b'', storageId = 8\<rparr>,
                        \<lparr>path = ''SKILL.md'', sha256 = ''a'', storageId = 7\<rparr>],
               parsed = ''old'', fingerprint = None\<rparr>"
    by (simp add: example_store_def db_get_def)
  have "\<exists>pre f post. [\<lparr>path = ''x.ts'', sha256 = ''b'', storageId = 8\<rparr>,
                        \<lparr>path = ''SKILL.md'', sha256 = ''a'', storageId = (7::nat)\<rparr>] = pre @ f # post
      \<and> (toLowerCase (path f) = ''skill.md'' \<or> toLowerCase (path f) = ''skills.md'')
      \<and> (\<forall>g\<in>set pre. toLowerCase (path g) \<noteq> ''skill.md'' \<and> toLowerCase (path g) \<noteq> ''skills.md'')
      \<and> items (getSkillBackfillPageInternal example_store None None) ! 0 =
          ItemOk 0 0 None ''old'' (storageId f)"
    using C5_summary_page_classification [OF example_page [symmetric] refl, of 0 0
        "\<lparr>latestVersionId = Some 0, summary = None, updatedAt = 0\<rparr>"] v0
    by (simp add: toLowerCase_def toLowerCase_char_def)
  then obtain pre f post where
    p: "[\<lparr>path = ''x.ts'', sha256 = ''b'', storageId = 8\<rparr>,
         \<lparr>path = ''SKILL.md'', sha256 = ''a'', storageId = (7::nat)\<rparr>] = pre @ f # post"
      "toLowerCase (path f) = ''skill.md'' \<or> toLowerCase (path f) = ''skills.md''"
      "items (getSkillBackfillPageInternal example_store None None) ! 0 =
         ItemOk 0 0 None ''old'' (storageId f)"
    by blast
  from p(1) have "f \<in> set [\<lparr>path = ''x.ts'', sha256 = ''b'', storageId = 8\<rparr>,
         \<lparr>path = ''SKILL.md'', sha256 = ''a'', storageId = (7::nat)\<rparr>]"
    by (metis in_set_conv_decomp)
  with p(2) have "storageId f = 7"
    by (auto simp: toLowerCase_def toLowerCase_char_def)
  with p(3) have i0: "items (getSkillBackfillPageInternal example_store None None) ! 0 =
      ItemOk 0 0 None ''old'' 7"
    by simp
  from i0 i1 i2 i3 show ?thesis by blast
qed

section \<open>Fingerprint backfill: the page fetcher\<close>

lemma remdups_not_single:
  "xs \<noteq> [] \<Longrightarrow> (length (remdups xs) \<noteq> 1) = (\<exists>a\<in>set xs. \<exists>b\<in>set xs. a \<noteq> b)"
proof -
  assume ne: "xs \<noteq> []"
  have "length (remdups xs) = card (set xs)" by (simp add: length_remdups_card_conv)
  moreover have "(card (set xs) = 1) = (\<exists>a. set xs = {a})" by (simp add: card_1_singleton_iff)
  moreover have "(\<exists>a. set xs = {a}) = (\<not> (\<exists>a\<in>set xs. \<exists>b\<in>set xs. a \<noteq> b))"
  proof
    assume "\<exists>a. set xs = {a}"
    then show "\<not> (\<exists>a\<in>set xs. \<exists>b\<in>set xs. a \<noteq> b)" by auto
  next
    assume n: "\<not> (\<exists>a\<in>set xs. \<exists>b\<in>set xs. a \<noteq> b)"
    from ne obtain a where a: "a \<in> set xs" by (cases xs) auto
    with n have "set xs = {a}" by auto
    then show "\<exists>a. set xs = {a}" by blast
  qed
  ultimately show ?thesis by simp
qed

lemma fingerprintItem_versionId: "fingerprintItem st ver = Some it \<Longrightarrow> i_versionId it = fst ver"
  by (auto simp: fingerprintItem_def Let_def split: if_splits)

lemma fingerprintItem_emitted_iff:
  "(fingerprintItem st (vid, v) \<noteq> None) =
     (fingerprint v = None \<or> fingerprint v = Some [] \<or> take 20 (entriesByVersion st vid) = []
      \<or> (\<exists>f. fingerprint v = Some f \<and> take 20 (entriesByVersion st vid) \<noteq> []
            \<and> ((\<exists>e1\<in>set (take 20 (entriesByVersion st vid)).
                  \<exists>e2\<in>set (take 20 (entriesByVersion st vid)).
                    e_fingerprint (snd e1) \<noteq> e_fingerprint (snd e2))
               \<or> (\<forall>e\<in>set (take 20 (entriesByVersion st vid)). e_fingerprint (snd e) \<noteq> f))))"
proof (cases "take 20 (entriesByVersion st vid) = []")
  case True
  then show ?thesis by (simp add: fingerprintItem_def Let_def)
next
  case False
  then have ne: "map (\<lambda>entry. e_fingerprint (snd entry)) (take 20 (entriesByVersion st vid)) \<noteq> []"
    by simp
  show ?thesis
  proof (cases "fingerprint v")
    case None
    then show ?thesis by (simp add: fingerprintItem_def Let_def truthy_def)
  next
    case (Some f)
    show ?thesis
      using False Some remdups_not_single [OF ne]
      by (auto simp: fingerprintItem_def Let_def truthy_def)
  qed
qed

text \<open>
  C7, as amended. The fingerprint page fetcher emits a version of the fetched page as a
  work item if and only if its stored fingerprint is absent or the empty string, or
  none of its entries was fetched (it has none), or it has a stored fingerprint and
  the fetched entries (its first 20) disagree among themselves or none of them
  equals the stored fingerprint; every other version of the page is skipped.
\<close>

theorem C7_fingerprint_page_emits:
  assumes "(vid, v) \<in> set (items (paginate (skillVersions st) c (count_of (clampBatchSize b))))"
  shows "(\<exists>it\<in>set (items (getSkillFingerprintBackfillPageInternal st c b)). i_versionId it = vid)
     = (fingerprint v = None \<or> fingerprint v = Some [] \<or> entriesByVersion st vid = []
        \<or> (\<exists>f. fingerprint v = Some f \<and> entriesByVersion st vid \<noteq> []
              \<and> ((\<exists>e1\<in>set (take 20 (entriesByVersion st vid)).
                    \<exists>e2\<in>set (take 20 (entriesByVersion st vid)).
                      e_fingerprint (snd e1) \<noteq> e_fingerprint (snd e2))
                 \<or> (\<forall>e\<in>set (take 20 (entriesByVersion st vid)). e_fingerprint (snd e) \<noteq> f))))"
proof -
  let ?page = "items (paginate (skillVersions st) c (count_of (clampBatchSize b)))"
  have its: "items (getSkillFingerprintBackfillPageInternal st c b)
      = List.map_filter (fingerprintItem st) ?page"
    by (simp add: getSkillFingerprintBackfillPageInternal_def Let_def)
  have page: "set ?page \<subseteq> set (db_docs (skillVersions st))"
    by (auto simp: paginate_def Let_def dest: in_set_takeD in_set_dropD)
  have "(\<exists>it\<in>set (List.map_filter (fingerprintItem st) ?page). i_versionId it = vid)
      = (fingerprintItem st (vid, v) \<noteq> None)"
  proof
    assume "\<exists>it\<in>set (List.map_filter (fingerprintItem st) ?page). i_versionId it = vid"
    then obtain it w where w: "w \<in> set ?page" "fingerprintItem st w = Some it" "i_versionId it = vid"
      by (auto simp: map_filter_def)
    from w(2,3) have "fst w = vid" using fingerprintItem_versionId by fastforce
    moreover from w(1) page have "db_get (skillVersions st) (fst w) = Some (snd w)"
      using db_docs_mem [of "fst w" "snd w"] by auto
    moreover from assms page have "db_get (skillVersions st) vid = Some v"
      using db_docs_mem [of vid v] by auto
    ultimately have "w = (vid, v)" by (cases w) simp
    with w(2) show "fingerprintItem st (vid, v) \<noteq> None" by simp
  next
    assume "fingerprintItem st (vid, v) \<noteq> None"
    then obtain it where it: "fingerprintItem st (vid, v) = Some it" by blast
    with assms have "it \<in> set (List.map_filter (fingerprintItem st) ?page)"
      by (force simp: map_filter_def)
    moreover from it have "i_versionId it = vid" using fingerprintItem_versionId by fastforce
    ultimately show "\<exists>it\<in>set (List.map_filter (fingerprintItem st) ?page). i_versionId it = vid"
      by blast
  qed
  then show ?thesis
    unfolding its fingerprintItem_emitted_iff by simp
qed

lemmas fp_eval = db_docs_def db_get_def paginate_def entriesByVersion_def fingerprintItem_def
  getSkillFingerprintBackfillPageInternal_def map_filter_def truthy_def Let_def

lemma example_versions_page:
  "items (paginate (skillVersions example_store) None (count_of (clampBatchSize None))) =
     [(0, \<lparr>v_skillId = 0,
               files = [\<lparr>path = ''x.ts'', sha256 = ''b'', storageId = 8\<rparr>,
                        \<lparr>path = ''SKILL.md'', sha256 = ''a'', storageId = 7\<rparr>],
               parsed = ''old'', fingerprint = None\<rparr>),
      (1, \<lparr>v_skillId = 3,
               files = [\<lparr>path = ''README.md'', sha256 = ''c'', storageId = 9\<rparr>],
               parsed = ''p'', fingerprint = Some ''f''\<rparr>)]"
  by (simp add: example_store_def fp_eval clamp_defs)

theorem C7_fingerprint_page_emits_witness:
  "(1, \<lparr>v_skillId = 3, files = [\<lparr>path = ''README.md'', sha256 = ''c'', storageId = 9\<rparr>],
        parsed = ''p'', fingerprint = Some ''f''\<rparr>)
     \<in> set (items (paginate (skillVersions example_store) None (count_of (clampBatchSize None))))
   \<and> (\<exists>it\<in>set (items (getSkillFingerprintBackfillPageInternal example_store None None)).
         i_versionId it = 1)"
proof -
  have m: "(1, \<lparr>v_skillId = 3, files = [\<lparr>path = ''README.md'', sha256 = ''c'', storageId = 9\<rparr>],
        parsed = ''p'', fingerprint = Some ''f''\<rparr>)
     \<in> set (items (paginate (skillVersions example_store) None (count_of (clampBatchSize None))))"
    by (simp add: example_versions_page)
  have e: "entriesByVersion example_store 1 =
      [(0, \<lparr>e_skillId = 3, e_versionId = 1, e_fingerprint = ''g'', createdAt = 1\<rparr>)]"
    by (simp add: example_store_def entriesByVersion_def db_docs_def)
  from C7_fingerprint_page_emits [OF m] e
  have "\<exists>it\<in>set (items (getSkillFingerprintBackfillPageInternal example_store None None)).
         i_versionId it = 1"
    by simp
  with m show ?thesis by blast
qed

theorem C7_fingerprint_page_emits_counterexample:
  "items (paginate (skillVersions empty_fingerprint_store) None (count_of (clampBatchSize None)))
     = [(0, \<lparr>v_skillId = 0, files = [], parsed = ''p'', fingerprint = Some ''''\<rparr>)]
   \<and> \<not> spec_work_item empty_fingerprint_store
         (0, \<lparr>v_skillId = 0, files = [], parsed = ''p'', fingerprint = Some ''''\<rparr>)
   \<and> items (getSkillFingerprintBackfillPageInternal empty_fingerprint_store None None)
     = [\<lparr>i_skillId = 0, i_versionId = 0, versionFingerprint = Some '''', i_files = [],
         existingEntries = [(0, '''')]\<rparr>]"
  by (simp add: empty_fingerprint_store_def spec_work_item_def fp_eval clamp_defs)

section \<open>Fingerprint backfill: the patch applier\<close>

lemma applier_missing:
  "db_get (skillVersions st) vid = None \<Longrightarrow>
   applySkillFingerprintBackfillPatchInternal now vid fp pv re ids st = (Inl ''missingVersion'', st)"
  by (simp add: applySkillFingerprintBackfillPatchInternal_def)

lemma applier_entries:
  "db_get (skillVersions st) vid = Some v \<Longrightarrow>
   db_docs (skillVersionFingerprints
      (snd (applySkillFingerprintBackfillPatchInternal now vid fp pv True ids st)))
   = filter (\<lambda>p. fst p \<notin> set (case ids of None \<Rightarrow> [] | Some l \<Rightarrow> l))
       (db_docs (skillVersionFingerprints st))
     @ [(length (skillVersionFingerprints st),
         \<lparr>e_skillId = v_skillId v, e_versionId = vid, e_fingerprint = fp, createdAt = now\<rparr>)]"
proof -
  have len: "\<And>ks (t :: fingerprintEntry table). length (fold (\<lambda>i t. db_delete t i) ks t) = length t"
  proof -
    fix ks and t :: "fingerprintEntry table"
    show "length (fold (\<lambda>i t. db_delete t i) ks t) = length t"
      by (induction ks arbitrary: t) (simp_all add: db_delete_def)
  qed
  assume "db_get (skillVersions st) vid = Some v"
  then show ?thesis
    by (simp add: applySkillFingerprintBackfillPatchInternal_def Let_def db_docs_insert
        db_docs_deletes len)
qed

lemma fingerprints_item_missing:
  "db_get (skillVersions (snd acc)) (i_versionId it) = None \<Longrightarrow>
   fingerprints_item h now False it acc = fingerprints_item h now True it acc"
  by (simp add: fingerprints_item_def Let_def applier_missing)

lemma fingerprints_item_dry: "snd (fingerprints_item h now True it acc) = snd acc"
  by (simp add: fingerprints_item_def Let_def)

text \<open>
  C8. When the target version has no record, the applier answers
  \<open>{ok: false, reason: 'missingVersion'}\<close> and the store is as before; the
  orchestrator's loop then goes on with the remaining items of the page, the item
  counted as it is counted in a dry run. When the version exists, \<open>replaceEntries\<close>
  is set and the listed identities are distinct and each has an entry in the table
  (otherwise the store's \<open>delete\<close> throws, which the tables do not model), the
  applier answers \<open>{ok: true}\<close> and the entries table afterwards is the table
  before without the listed identities, followed by one new entry that carries the
  version's skill, the version, the computed fingerprint and the current time.
\<close>

theorem C8_fingerprint_applier:
  "(db_get (skillVersions st) vid = None \<longrightarrow>
      applySkillFingerprintBackfillPatchInternal now vid fp pv re ids st
        = (Inl ''missingVersion'', st))
   \<and> (db_get (skillVersions (snd acc)) (i_versionId it) = None \<longrightarrow>
        fold (fingerprints_item h now False) (it # rest) acc
          = fold (fingerprints_item h now False) rest
              (fst (fingerprints_item h now True it acc), snd acc))
   \<and> (\<forall>v. db_get (skillVersions st) vid = Some v
          \<and> distinct (case ids of None \<Rightarrow> [] | Some l \<Rightarrow> l)
          \<and> (\<forall>i \<in> set (case ids of None \<Rightarrow> [] | Some l \<Rightarrow> l).
                db_get (skillVersionFingerprints st) i \<noteq> None) \<longrightarrow>
        fst (applySkillFingerprintBackfillPatchInternal now vid fp pv True ids st) = Inr ()
        \<and> db_docs (skillVersionFingerprints
             (snd (applySkillFingerprintBackfillPatchInternal now vid fp pv True ids st)))
           = filter (\<lambda>p. fst p \<notin> set (case ids of None \<Rightarrow> [] | Some l \<Rightarrow> l))
               (db_docs (skillVersionFingerprints st))
             @ [(length (skillVersionFingerprints st),
                 \<lparr>e_skillId = v_skillId v, e_versionId = vid, e_fingerprint = fp,
                  createdAt = now\<rparr>)])"
proof -
  have a: "db_get (skillVersions st) vid = None \<longrightarrow>
      applySkillFingerprintBackfillPatchInternal now vid fp pv re ids st
        = (Inl ''missingVersion'', st)"
    by (simp add: applier_missing)
  have b: "db_get (skillVersions (snd acc)) (i_versionId it) = None \<longrightarrow>
        fold (fingerprints_item h now False) (it # rest) acc
          = fold (fingerprints_item h now False) rest
              (fst (fingerprints_item h now True it acc), snd acc)"
  proof
    assume m: "db_get (skillVersions (snd acc)) (i_versionId it) = None"
    have "fingerprints_item h now False it acc
        = (fst (fingerprints_item h now True it acc), snd acc)"
      using fingerprints_item_missing [OF m, of h now] fingerprints_item_dry [of h now it acc]
      by (metis prod.collapse)
    then show "fold (fingerprints_item h now False) (it # rest) acc
          = fold (fingerprints_item h now False) rest
              (fst (fingerprints_item h now True it acc), snd acc)"
      by simp
  qed
  have c: "\<forall>v. db_get (skillVersions st) vid = Some v
          \<and> distinct (case ids of None \<Rightarrow> [] | Some l \<Rightarrow> l)
          \<and> (\<forall>i \<in> set (case ids of None \<Rightarrow> [] | Some l \<Rightarrow> l).
                db_get (skillVersionFingerprints st) i \<noteq> None) \<longrightarrow>
        fst (applySkillFingerprintBackfillPatchInternal now vid fp pv True ids st) = Inr ()
        \<and> db_docs (skillVersionFingerprints
             (snd (applySkillFingerprintBackfillPatchInternal now vid fp pv True ids st)))
           = filter (\<lambda>p. fst p \<notin> set (case ids of None \<Rightarrow> [] | Some l \<Rightarrow> l))
               (db_docs (skillVersionFingerprints st))
             @ [(length (skillVersionFingerprints st),
                 \<lparr>e_skillId = v_skillId v, e_versionId = vid, e_fingerprint = fp,
                  createdAt = now\<rparr>)]"
  proof (intro allI impI conjI)
    fix v assume "db_get (skillVersions st) vid = Some v
          \<and> distinct (case ids of None \<Rightarrow> [] | Some l \<Rightarrow> l)
          \<and> (\<forall>i \<in> set (case ids of None \<Rightarrow> [] | Some l \<Rightarrow> l).
                db_get (skillVersionFingerprints st) i \<noteq> None)"
    then have v: "db_get (skillVersions st) vid = Some v" by simp
    then show "fst (applySkillFingerprintBackfillPatchInternal now vid fp pv True ids st) = Inr ()"
      by (simp add: applySkillFingerprintBackfillPatchInternal_def Let_def)
    from v show "db_docs (skillVersionFingerprints
             (snd (applySkillFingerprintBackfillPatchInternal now vid fp pv True ids st)))
           = filter (\<lambda>p. fst p \<notin> set (case ids of None \<Rightarrow> [] | Some l \<Rightarrow> l))
               (db_docs (skillVersionFingerprints st))
             @ [(length (skillVersionFingerprints st),
                 \<lparr>e_skillId = v_skillId v, e_versionId = vid, e_fingerprint = fp,
                  createdAt = now\<rparr>)]"
      by (rule applier_entries)
  qed
  from a b c show ?thesis by blast
qed

lemmas applier_eval = applySkillFingerprintBackfillPatchInternal_def db_get_def db_patch_def
  db_delete_def db_insert_def db_docs_def Let_def

theorem C8_fingerprint_applier_witness:
  "db_get (skillVersions example_store) 7 = None
   \<and> applySkillFingerprintBackfillPatchInternal 9 7 ''h'' True True (Some [0]) example_store
       = (Inl ''missingVersion'', example_store)
   \<and> db_get (skillVersions example_store) 1
       = Some \<lparr>v_skillId = 3, files = [\<lparr>path = ''README.md'', sha256 = ''c'', storageId = 9\<rparr>],
               parsed = ''p'', fingerprint = Some ''f''\<rparr>
   \<and> distinct [0 :: nat]
   \<and> db_get (skillVersionFingerprints example_store) 0
       = Some \<lparr>e_skillId = 3, e_versionId = 1, e_fingerprint = ''g'', createdAt = 1\<rparr>
   \<and> fst (applySkillFingerprintBackfillPatchInternal 9 1 ''h'' True True (Some [0])
           example_store) = Inr ()
   \<and> db_docs (skillVersionFingerprints
        (snd (applySkillFingerprintBackfillPatchInternal 9 1 ''h'' True True (Some [0])
               example_store)))
       = [(1, \<lparr>e_skillId = 3, e_versionId = 1, e_fingerprint = ''h'', createdAt = 9\<rparr>)]
   \<and> fold (fingerprints_item hashSkillFiles_model 9 False)
         [\<lparr>i_skillId = 0, i_versionId = 7, versionFingerprint = None, i_files = [],
           existingEntries = []\<rparr>] (no_fp_stats, example_store)
       = (\<lparr>versionsScanned = 1, fp_versionsPatched = 1, fingerprintsInserted = 1,
           fingerprintMismatches = 0\<rparr>, example_store)"
proof -
  have m: "db_get (skillVersions example_store) 7 = None"
    by (simp add: example_store_def db_get_def)
  have v: "db_get (skillVersions example_store) 1
       = Some \<lparr>v_skillId = 3, files = [\<lparr>path = ''README.md'', sha256 = ''c'', storageId = 9\<rparr>],
               parsed = ''p'', fingerprint = Some ''f''\<rparr>"
    by (simp add: example_store_def db_get_def)
  have e: "db_get (skillVersionFingerprints example_store) 0
       = Some \<lparr>e_skillId = 3, e_versionId = 1, e_fingerprint = ''g'', createdAt = 1\<rparr>"
    by (simp add: example_store_def db_get_def)
  have ids: "distinct (case Some [0 :: nat] of None \<Rightarrow> [] | Some l \<Rightarrow> l)
       \<and> (\<forall>i \<in> set (case Some [0 :: nat] of None \<Rightarrow> [] | Some l \<Rightarrow> l).
             db_get (skillVersionFingerprints example_store) i \<noteq> None)"
    using e by simp
  have d: "db_docs (skillVersionFingerprints example_store)
       = [(0, \<lparr>e_skillId = 3, e_versionId = 1, e_fingerprint = ''g'', createdAt = 1\<rparr>)]"
    by (simp add: example_store_def db_docs_def)
  have l: "length (skillVersionFingerprints example_store) = 1"
    by (simp add: example_store_def)
  from C8_fingerprint_applier [of example_store 7 9 "''h''" True True "Some [0]"] m
  have a: "applySkillFingerprintBackfillPatchInternal 9 7 ''h'' True True (Some [0]) example_store
       = (Inl ''missingVersion'', example_store)"
    by blast
  from C8_fingerprint_applier [of example_store 1 9 "''h''" True True "Some [0]"] v ids
  have r: "fst (applySkillFingerprintBackfillPatchInternal 9 1 ''h'' True True (Some [0])
           example_store) = Inr ()
     \<and> db_docs (skillVersionFingerprints
        (snd (applySkillFingerprintBackfillPatchInternal 9 1 ''h'' True True (Some [0])
               example_store)))
       = filter (\<lambda>p. fst p \<notin> set (case Some [0] of None \<Rightarrow> [] | Some l \<Rightarrow> l))
               (db_docs (skillVersionFingerprints example_store))
             @ [(length (skillVersionFingerprints example_store),
                 \<lparr>e_skillId = v_skillId \<lparr>v_skillId = 3, files = [\<lparr>path = ''README.md'', sha256 = ''c'', storageId = 9\<rparr>],
               parsed = ''p'', fingerprint = Some ''f''\<rparr>, e_versionId = 1, e_fingerprint = ''h'',
                  createdAt = 9\<rparr>)]"
    by blast
  from r have ok: "fst (applySkillFingerprintBackfillPatchInternal 9 1 ''h'' True True (Some [0])
           example_store) = Inr ()"
    by (rule conjunct1)
  from r have b: "db_docs (skillVersionFingerprints
        (snd (applySkillFingerprintBackfillPatchInternal 9 1 ''h'' True True (Some [0])
               example_store)))
       = [(1, \<lparr>e_skillId = 3, e_versionId = 1, e_fingerprint = ''h'', createdAt = 9\<rparr>)]"
    by (simp add: d l)
  from C8_fingerprint_applier [where acc = "(no_fp_stats, example_store)"
      and it = "\<lparr>i_skillId = 0, i_versionId = 7, versionFingerprint = None, i_files = [],
        existingEntries = []\<rparr>" and h = hashSkillFiles_model and now = 9 and rest = "[]"
      and st = example_store and vid = 7 and fp = "''h''" and pv = True and re = True
      and ids = "Some [0]"] m
  have c: "fold (fingerprints_item hashSkillFiles_model 9 False)
         [\<lparr>i_skillId = 0, i_versionId = 7, versionFingerprint = None, i_files = [],
           existingEntries = []\<rparr>] (no_fp_stats, example_store)
       = (\<lparr>versionsScanned = 1, fp_versionsPatched = 1, fingerprintsInserted = 1,
           fingerprintMismatches = 0\<rparr>, example_store)"
    by (simp add: fingerprints_item_def no_fp_stats_def Let_def)
  have dst: "distinct [0 :: nat]" by simp
  from m a v dst e ok b c show ?thesis by blast
qed

section \<open>Pagination\<close>

lemma paginate_simps:
  "items (paginate t c n) = take n (drop (pos_of c) (db_docs t))"
  "isDone (paginate t c n) = (length (db_docs t) - pos_of c \<le> n)"
  "cursor (paginate t c n) = Some (pos_of c + min n (length (db_docs t) - pos_of c))"
  by (simp_all add: paginate_def pos_of_def Let_def min_def)

lemma scan_done_iff:
  "0 < n \<Longrightarrow> scan_done t n k c = (0 < k \<and> length (db_docs t) - pos_of c \<le> n * k)"
proof (induction k arbitrary: c)
  case 0
  then show ?case by simp
next
  case (Suc k)
  show ?case
  proof (cases "length (db_docs t) - pos_of c \<le> n")
    case True
    then have "length (db_docs t) - pos_of c \<le> n * Suc k"
      by (simp add: trans_le_add1)
    with True show ?thesis by (simp add: paginate_simps)
  next
    case False
    then have m: "min n (length (db_docs t) - pos_of c) = n" by simp
    have "scan_done t n (Suc k) c = scan_done t n k (Some (pos_of c + n))"
      using False by (simp add: paginate_simps)
    also have "\<dots> = (0 < k \<and> length (db_docs t) - (pos_of c + n) \<le> n * k)"
      using Suc.IH [OF Suc.prems] by (simp add: pos_of_def)
    also have "\<dots> = (length (db_docs t) - pos_of c \<le> n * Suc k)"
      using False by (cases k) auto
    finally show ?thesis by simp
  qed
qed

lemma docs_drop_eq:
  assumes ids: "map fst (db_docs t') = map fst (db_docs t)"
    and same: "\<forall>i \<in> fst ` set (drop m (db_docs t)). db_get t' i = db_get t i"
  shows "drop m (db_docs t') = drop m (db_docs t)"
proof (rule nth_equalityI)
  from ids have len: "length (db_docs t') = length (db_docs t)"
    by (metis length_map)
  then show "length (drop m (db_docs t')) = length (drop m (db_docs t))" by simp
  fix i assume i: "i < length (drop m (db_docs t'))"
  with len have i': "m + i < length (db_docs t)" "m + i < length (db_docs t')" by simp_all
  have "map fst (db_docs t') ! (m + i) = map fst (db_docs t) ! (m + i)"
    using ids by simp
  with i' have f: "fst (db_docs t' ! (m + i)) = fst (db_docs t ! (m + i))"
    by simp
  have "drop m (db_docs t) ! i \<in> set (drop m (db_docs t))"
    by (rule nth_mem) (use i len in simp)
  with i' have "db_docs t ! (m + i) \<in> set (drop m (db_docs t))"
    by simp
  with same have g: "db_get t' (fst (db_docs t ! (m + i))) = db_get t (fst (db_docs t ! (m + i)))"
    by blast
  have "db_docs t ! (m + i) \<in> set (db_docs t)" using i' by simp
  then have a: "db_get t (fst (db_docs t ! (m + i))) = Some (snd (db_docs t ! (m + i)))"
    using db_docs_mem [of "fst (db_docs t ! (m + i))" "snd (db_docs t ! (m + i))" t] by simp
  have "db_docs t' ! (m + i) \<in> set (db_docs t')" using i' by simp
  then have b: "db_get t' (fst (db_docs t' ! (m + i))) = Some (snd (db_docs t' ! (m + i)))"
    using db_docs_mem [of "fst (db_docs t' ! (m + i))" "snd (db_docs t' ! (m + i))" t'] by simp
  from f g a b have "snd (db_docs t' ! (m + i)) = snd (db_docs t ! (m + i))" by simp
  with f have "db_docs t' ! (m + i) = db_docs t ! (m + i)" by (simp add: prod_eq_iff)
  with i' show "drop m (db_docs t') ! i = drop m (db_docs t) ! i" by simp
qed

lemma distinct_fst_eq:
  "distinct (map fst xs) \<Longrightarrow> p \<in> set xs \<Longrightarrow> q \<in> set xs \<Longrightarrow> fst p = fst q \<Longrightarrow> p = q"
  by (metis distinct_map inj_onD)

lemma filter_not_taken:
  "distinct (map fst xs) \<Longrightarrow> filter (\<lambda>p. fst p \<notin> fst ` set (take n xs)) xs = drop n xs"
proof -
  assume d: "distinct (map fst xs)"
  have d2: "distinct (map fst (take n xs) @ map fst (drop n xs))"
    using d by (metis append_take_drop_id map_append)
  have a: "filter (\<lambda>p. fst p \<notin> fst ` set (take n xs)) (take n xs) = []"
    by (simp add: filter_empty_conv)
  have "\<forall>p \<in> set (drop n xs). fst p \<notin> fst ` set (take n xs)"
    using d2 by auto
  then have b: "filter (\<lambda>p. fst p \<notin> fst ` set (take n xs)) (drop n xs) = drop n xs"
    by (simp add: filter_id_conv)
  have "filter (\<lambda>p. fst p \<notin> fst ` set (take n xs)) xs
      = filter (\<lambda>p. fst p \<notin> fst ` set (take n xs)) (take n xs @ drop n xs)"
    by simp
  also have "\<dots> = drop n xs" unfolding filter_append a b by simp
  finally show ?thesis .
qed

section \<open>Fingerprint backfill: one item, one version\<close>

lemma fingerprints_item_count:
  "fst (fingerprints_item h now dry it acc) = fp_count h it (fst acc)"
  by (simp add: fingerprints_item_def fp_count_def item_entry_correct_def
      item_version_correct_def Let_def)

lemma fingerprints_item_store:
  "snd (fingerprints_item h now dry it acc) =
     (if dry \<or> (item_version_correct h it \<and> item_entry_correct h it) then snd acc
      else snd (applySkillFingerprintBackfillPatchInternal now (i_versionId it) (h (i_files it))
                  (\<not> item_version_correct h it) (\<not> item_entry_correct h it)
                  (Some (if \<not> item_entry_correct h it then map fst (existingEntries it) else []))
                  (snd acc)))"
  by (simp add: fingerprints_item_def item_entry_correct_def item_version_correct_def Let_def)

lemma fingerprintItem_fields:
  "fingerprintItem st (vid, v) = Some it \<Longrightarrow>
   i_versionId it = vid \<and> i_skillId it = v_skillId v \<and> versionFingerprint it = fingerprint v
   \<and> i_files it = map (\<lambda>file. (path file, sha256 file)) (files v)
   \<and> existingEntries it
       = map (\<lambda>entry. (fst entry, e_fingerprint (snd entry))) (take 20 (entriesByVersion st vid))"
  by (auto simp: fingerprintItem_def Let_def split: if_splits)

lemma fingerprintItem_cong:
  "entriesByVersion st vid = entriesByVersion st' vid \<Longrightarrow>
   fingerprintItem st (vid, v) = fingerprintItem st' (vid, v)"
  by (simp add: fingerprintItem_def)

lemma fold_delete_length:
  "length (fold (\<lambda>i t. db_delete t i) ks t) = length t"
  by (induction ks arbitrary: t) (simp_all add: db_delete_def)

lemma applier_frame:
  "skills (snd (applySkillFingerprintBackfillPatchInternal now vid fp pv re ids st)) = skills st
   \<and> storage (snd (applySkillFingerprintBackfillPatchInternal now vid fp pv re ids st)) = storage st
   \<and> map fst (db_docs (skillVersions
        (snd (applySkillFingerprintBackfillPatchInternal now vid fp pv re ids st))))
       = map fst (db_docs (skillVersions st))
   \<and> (\<forall>w. w \<noteq> vid \<longrightarrow>
        db_get (skillVersions (snd (applySkillFingerprintBackfillPatchInternal now vid fp pv re ids st))) w
          = db_get (skillVersions st) w)"
  by (cases "db_get (skillVersions st) vid")
     (auto simp: applySkillFingerprintBackfillPatchInternal_def Let_def db_docs_patch
        db_get_patch comp_def)

lemma applier_version:
  "db_get (skillVersions (snd (applySkillFingerprintBackfillPatchInternal now vid fp pv re ids st))) vid
     = (if pv then map_option (\<lambda>d. d\<lparr>fingerprint := Some fp\<rparr>) (db_get (skillVersions st) vid)
        else db_get (skillVersions st) vid)"
  by (cases "db_get (skillVersions st) vid")
     (auto simp: applySkillFingerprintBackfillPatchInternal_def Let_def db_get_patch)

lemma applier_docs:
  "db_docs (skillVersionFingerprints
      (snd (applySkillFingerprintBackfillPatchInternal now vid fp pv re ids st)))
   = (case db_get (skillVersions st) vid of
        None \<Rightarrow> db_docs (skillVersionFingerprints st)
      | Some v \<Rightarrow>
          if re then filter (\<lambda>p. fst p \<notin> set (case ids of None \<Rightarrow> [] | Some l \<Rightarrow> l))
                      (db_docs (skillVersionFingerprints st))
                    @ [(length (skillVersionFingerprints st),
                        \<lparr>e_skillId = v_skillId v, e_versionId = vid, e_fingerprint = fp,
                         createdAt = now\<rparr>)]
          else db_docs (skillVersionFingerprints st))"
  by (cases "db_get (skillVersions st) vid")
     (auto simp: applySkillFingerprintBackfillPatchInternal_def Let_def db_docs_insert
        db_docs_deletes fold_delete_length)

lemma entries_distinct: "distinct (map fst (entriesByVersion st vid))"
  unfolding entriesByVersion_def using db_docs_distinct [of "skillVersionFingerprints st"]
  by (simp add: distinct_map_filter)

text \<open>The identities an emitted item lists are distinct, and each has an entry in the
  store the item was read from: on them \<open>db_delete\<close> is the store's \<open>delete\<close>.\<close>

lemma fingerprintItem_ids:
  assumes it: "fingerprintItem st (vid, v) = Some it"
  shows "distinct (map fst (existingEntries it))"
    and "\<forall>i \<in> set (map fst (existingEntries it)).
           db_get (skillVersionFingerprints st) i \<noteq> None"
proof -
  let ?E = "entriesByVersion st vid"
  from fingerprintItem_fields [OF it]
  have ids: "map fst (existingEntries it) = take 20 (map fst ?E)"
    by (simp add: comp_def take_map)
  show "distinct (map fst (existingEntries it))"
    unfolding ids using entries_distinct [of st vid] by (rule distinct_take)
  show "\<forall>i \<in> set (map fst (existingEntries it)).
           db_get (skillVersionFingerprints st) i \<noteq> None"
  proof
    fix i assume "i \<in> set (map fst (existingEntries it))"
    then have "i \<in> set (map fst ?E)" unfolding ids by (rule in_set_takeD)
    then obtain e where "(i, e) \<in> set ?E" by auto
    then have "(i, e) \<in> set (db_docs (skillVersionFingerprints st))"
      by (simp add: entriesByVersion_def)
    then show "db_get (skillVersionFingerprints st) i \<noteq> None"
      by (simp add: db_docs_mem)
  qed
qed

lemma applier_entries_other:
  assumes sub: "set (case ids of None \<Rightarrow> [] | Some l \<Rightarrow> l) \<subseteq> fst ` set (entriesByVersion st vid)"
    and w: "w \<noteq> vid"
  shows "entriesByVersion (snd (applySkillFingerprintBackfillPatchInternal now vid fp pv re ids st)) w
     = entriesByVersion st w"
proof (cases "db_get (skillVersions st) vid")
  case None
  then show ?thesis by (simp add: applier_missing)
next
  case (Some v)
  let ?ids = "case ids of None \<Rightarrow> [] | Some l \<Rightarrow> l"
  let ?D = "db_docs (skillVersionFingerprints st)"
  let ?new = "(length (skillVersionFingerprints st),
      \<lparr>e_skillId = v_skillId v, e_versionId = vid, e_fingerprint = fp, createdAt = now\<rparr>)"
  show ?thesis
  proof (cases re)
    case False
    with Some have "db_docs (skillVersionFingerprints
        (snd (applySkillFingerprintBackfillPatchInternal now vid fp pv re ids st))) = ?D"
      by (simp add: applier_docs)
    then show ?thesis by (simp add: entriesByVersion_def)
  next
    case True
    have "\<forall>p \<in> set ?D. e_versionId (snd p) = w \<longrightarrow> fst p \<notin> set ?ids"
    proof (intro ballI impI notI)
      fix p assume p: "p \<in> set ?D" "e_versionId (snd p) = w" "fst p \<in> set ?ids"
      from p(3) sub have "fst p \<in> fst ` set (entriesByVersion st vid)" by blast
      then obtain q where q: "q \<in> set (entriesByVersion st vid)" "fst p = fst q"
        by (auto simp: image_iff)
      from q(1) have qD: "q \<in> set ?D" and qv: "e_versionId (snd q) = vid"
        by (simp_all add: entriesByVersion_def)
      have "p = q"
        by (rule distinct_fst_eq [OF db_docs_distinct p(1) qD q(2)])
      with p(2) qv w show False by simp
    qed
    then have "filter (\<lambda>x. fst x \<notin> set ?ids \<and> e_versionId (snd x) = w) ?D
        = filter (\<lambda>e. e_versionId (snd e) = w) ?D"
      by (intro filter_cong refl) blast
    then have keep: "filter (\<lambda>e. e_versionId (snd e) = w) (filter (\<lambda>p. fst p \<notin> set ?ids) ?D)
        = filter (\<lambda>e. e_versionId (snd e) = w) ?D"
      by (simp add: filter_filter)
    from True Some have "db_docs (skillVersionFingerprints
        (snd (applySkillFingerprintBackfillPatchInternal now vid fp pv re ids st)))
        = filter (\<lambda>p. fst p \<notin> set ?ids) ?D @ [?new]"
      by (simp add: applier_docs)
    then have "entriesByVersion
        (snd (applySkillFingerprintBackfillPatchInternal now vid fp pv re ids st)) w
        = filter (\<lambda>e. e_versionId (snd e) = w) (filter (\<lambda>p. fst p \<notin> set ?ids) ?D @ [?new])"
      by (simp only: entriesByVersion_def)
    also have "\<dots> = filter (\<lambda>e. e_versionId (snd e) = w) ?D"
      unfolding filter_append keep using w by simp
    finally show ?thesis by (simp add: entriesByVersion_def)
  qed
qed

lemma applier_entries_own:
  assumes v: "db_get (skillVersions st) vid = Some v"
    and ids: "ids = Some (map fst (take 20 (entriesByVersion st vid)))"
  shows "entriesByVersion (snd (applySkillFingerprintBackfillPatchInternal now vid fp pv True ids st)) vid
     = drop 20 (entriesByVersion st vid)
       @ [(length (skillVersionFingerprints st),
           \<lparr>e_skillId = v_skillId v, e_versionId = vid, e_fingerprint = fp, createdAt = now\<rparr>)]"
proof -
  let ?D = "db_docs (skillVersionFingerprints st)"
  let ?E = "entriesByVersion st vid"
  let ?new = "(length (skillVersionFingerprints st),
           \<lparr>e_skillId = v_skillId v, e_versionId = vid, e_fingerprint = fp, createdAt = now\<rparr>)"
  have docs: "db_docs (skillVersionFingerprints
      (snd (applySkillFingerprintBackfillPatchInternal now vid fp pv True ids st)))
      = filter (\<lambda>p. fst p \<notin> fst ` set (take 20 ?E)) ?D @ [?new]"
    unfolding applier_docs using v ids by simp
  have "filter (\<lambda>e. e_versionId (snd e) = vid) (filter (\<lambda>p. fst p \<notin> fst ` set (take 20 ?E)) ?D)
      = filter (\<lambda>p. fst p \<notin> fst ` set (take 20 ?E)) ?E"
    unfolding entriesByVersion_def by (simp add: filter_filter conj_commute)
  also have "\<dots> = drop 20 ?E"
    by (rule filter_not_taken) (rule entries_distinct)
  finally have own: "filter (\<lambda>e. e_versionId (snd e) = vid)
      (filter (\<lambda>p. fst p \<notin> fst ` set (take 20 ?E)) ?D) = drop 20 ?E" .
  have "entriesByVersion (snd (applySkillFingerprintBackfillPatchInternal now vid fp pv True ids st)) vid
      = filter (\<lambda>e. e_versionId (snd e) = vid)
          (filter (\<lambda>p. fst p \<notin> fst ` set (take 20 ?E)) ?D @ [?new])"
    unfolding entriesByVersion_def [of _ vid] docs by (simp add: entriesByVersion_def)
  also have "\<dots> = drop 20 ?E @ [?new]"
    unfolding filter_append own by simp
  finally show ?thesis .
qed

section \<open>Fingerprint backfill: the run as a sequence of visits\<close>

lemma fp_visit_count:
  "fst (fp_visit h now dry (vid, v) acc) =
     (case fingerprintItem (snd acc) (vid, v) of None \<Rightarrow> fst acc
      | Some it \<Rightarrow> fp_count h it (fst acc))"
  by (simp add: fp_visit_def fingerprints_item_count split: option.splits)

lemma fp_visit_dry: "snd (fp_visit h now True ver acc) = snd acc"
  by (simp add: fp_visit_def fingerprints_item_store split: option.splits)

lemma fp_visit_frame:
  "skills (snd (fp_visit h now dry (vid, v) acc)) = skills (snd acc)
   \<and> storage (snd (fp_visit h now dry (vid, v) acc)) = storage (snd acc)
   \<and> map fst (db_docs (skillVersions (snd (fp_visit h now dry (vid, v) acc))))
       = map fst (db_docs (skillVersions (snd acc)))
   \<and> (\<forall>w. w \<noteq> vid \<longrightarrow>
        db_get (skillVersions (snd (fp_visit h now dry (vid, v) acc))) w
          = db_get (skillVersions (snd acc)) w
        \<and> entriesByVersion (snd (fp_visit h now dry (vid, v) acc)) w
          = entriesByVersion (snd acc) w)"
proof (cases "fingerprintItem (snd acc) (vid, v)")
  case None
  then show ?thesis by (simp add: fp_visit_def)
next
  case (Some it)
  note f = fingerprintItem_fields [OF Some]
  show ?thesis
  proof (cases "dry \<or> (item_version_correct h it \<and> item_entry_correct h it)")
    case True
    with Some show ?thesis by (simp add: fp_visit_def fingerprints_item_store)
  next
    case False
    let ?ids = "Some (if \<not> item_entry_correct h it then map fst (existingEntries it) else [])"
    let ?st' = "snd (applySkillFingerprintBackfillPatchInternal now vid (h (i_files it))
                  (\<not> item_version_correct h it) (\<not> item_entry_correct h it) ?ids (snd acc))"
    from False Some f have st': "snd (fp_visit h now dry (vid, v) acc) = ?st'"
      by (auto simp: fp_visit_def fingerprints_item_store)
    have sub: "set (case ?ids of None \<Rightarrow> [] | Some l \<Rightarrow> l)
        \<subseteq> fst ` set (entriesByVersion (snd acc) vid)"
      using f by (auto simp: image_iff dest: in_set_takeD)
    show ?thesis
      unfolding st'
      using applier_frame [of now vid "h (i_files it)" "\<not> item_version_correct h it"
          "\<not> item_entry_correct h it" ?ids "snd acc"]
        applier_entries_other [OF sub, of _ now "h (i_files it)" "\<not> item_version_correct h it"
          "\<not> item_entry_correct h it"]
      by blast
  qed
qed

lemma fold_fp_visit_frame:
  "skills (snd (fold (fp_visit h now dry) D acc)) = skills (snd acc)
   \<and> storage (snd (fold (fp_visit h now dry) D acc)) = storage (snd acc)
   \<and> map fst (db_docs (skillVersions (snd (fold (fp_visit h now dry) D acc))))
       = map fst (db_docs (skillVersions (snd acc)))
   \<and> (\<forall>w. w \<notin> fst ` set D \<longrightarrow>
        db_get (skillVersions (snd (fold (fp_visit h now dry) D acc))) w
          = db_get (skillVersions (snd acc)) w
        \<and> entriesByVersion (snd (fold (fp_visit h now dry) D acc)) w
          = entriesByVersion (snd acc) w)"
proof (induction D arbitrary: acc)
  case Nil
  then show ?case by simp
next
  case (Cons d D)
  obtain vid v where d: "d = (vid, v)" by (cases d)
  from Cons [of "fp_visit h now dry (vid, v) acc"] fp_visit_frame [of h now dry vid v acc]
  show ?case unfolding d by simp
qed

lemma page_visits:
  "distinct (map fst D) \<Longrightarrow>
   \<forall>d\<in>set D. entriesByVersion (snd acc) (fst d) = entriesByVersion st0 (fst d) \<Longrightarrow>
   fold (fingerprints_item h now dry) (List.map_filter (fingerprintItem st0) D) acc
     = fold (fp_visit h now dry) D acc"
proof (induction D arbitrary: acc)
  case Nil
  show ?case by (simp add: map_filter_simps)
next
  case (Cons d D)
  obtain vid v where d: "d = (vid, v)" by (cases d)
  let ?acc1 = "fp_visit h now dry (vid, v) acc"
  from Cons.prems(2) have "entriesByVersion (snd acc) vid = entriesByVersion st0 vid"
    unfolding d by simp
  then have same: "fingerprintItem st0 (vid, v) = fingerprintItem (snd acc) (vid, v)"
    by (rule fingerprintItem_cong [symmetric])
  have rest: "\<forall>e\<in>set D. entriesByVersion (snd ?acc1) (fst e) = entriesByVersion st0 (fst e)"
  proof
    fix e assume e: "e \<in> set D"
    from Cons.prems(1) have "vid \<notin> fst ` set D" unfolding d by simp
    with e have "fst e \<noteq> vid" by blast
    with fp_visit_frame [of h now dry vid v acc]
    have "entriesByVersion (snd ?acc1) (fst e) = entriesByVersion (snd acc) (fst e)" by blast
    moreover from Cons.prems(2) e
    have "entriesByVersion (snd acc) (fst e) = entriesByVersion st0 (fst e)" by simp
    ultimately show "entriesByVersion (snd ?acc1) (fst e) = entriesByVersion st0 (fst e)"
      by simp
  qed
  from Cons.prems(1) have dist: "distinct (map fst D)" by simp
  have IH: "fold (fingerprints_item h now dry) (List.map_filter (fingerprintItem st0) D) ?acc1
      = fold (fp_visit h now dry) D ?acc1"
    using dist rest by (rule Cons.IH)
  have step: "fold (fingerprints_item h now dry)
        (List.map_filter (fingerprintItem st0) ((vid, v) # D)) acc
      = fold (fingerprints_item h now dry) (List.map_filter (fingerprintItem st0) D) ?acc1"
    by (cases "fingerprintItem (snd acc) (vid, v)")
       (simp_all add: map_filter_simps same fp_visit_def)
  have "fold (fp_visit h now dry) ((vid, v) # D) acc = fold (fp_visit h now dry) D ?acc1"
    by simp
  with step IH show ?case unfolding d by simp
qed

lemma fingerprints_batches_fold:
  assumes bs: "clampBatchSize (Some bs) = bs" and n: "0 < count_of bs"
  shows "fingerprints_batches h now dry bs k c fin acc =
     ((if k = 0 then fin
       else length (db_docs (skillVersions (snd acc))) - pos_of c \<le> count_of bs * k),
      fold (fp_visit h now dry)
        (take (count_of bs * k) (drop (pos_of c) (db_docs (skillVersions (snd acc))))) acc)"
proof (induction k arbitrary: c fin acc)
  case 0
  then show ?case by simp
next
  case (Suc k)
  let ?n = "count_of bs"
  let ?docs = "db_docs (skillVersions (snd acc))"
  let ?P = "take ?n (drop (pos_of c) ?docs)"
  let ?page = "getSkillFingerprintBackfillPageInternal (snd acc) c (Some bs)"
  let ?acc' = "fold (fp_visit h now dry) ?P acc"
  have items: "items ?page = List.map_filter (fingerprintItem (snd acc)) ?P"
    and isDone: "isDone ?page = (length ?docs - pos_of c \<le> ?n)"
    and cursor: "cursor ?page = Some (pos_of c + min ?n (length ?docs - pos_of c))"
    by (simp_all add: getSkillFingerprintBackfillPageInternal_def Let_def bs paginate_simps)
  have "distinct (map fst ?docs)" by (rule db_docs_distinct)
  then have "distinct (map fst (drop (pos_of c) ?docs))" by (simp add: drop_map [symmetric])
  then have distP: "distinct (map fst ?P)" by (simp add: take_map [symmetric])
  have acc': "fold (fingerprints_item h now dry) (items ?page) acc = ?acc'"
    unfolding items by (rule page_visits [OF distP]) simp
  show ?case
  proof (cases "length ?docs - pos_of c \<le> ?n")
    case True
    then have "take (?n * Suc k) (drop (pos_of c) ?docs) = ?P"
      by (simp add: trans_le_add1)
    moreover from True have "length ?docs - pos_of c \<le> ?n * Suc k"
      by (simp add: trans_le_add1)
    ultimately show ?thesis
      using True by (simp add: Let_def isDone acc')
  next
    case False
    let ?docs' = "db_docs (skillVersions (snd ?acc'))"
    note fr = fold_fp_visit_frame [of h now dry ?P acc]
    from fr have ids: "map fst ?docs' = map fst ?docs" by blast
    then have len: "length ?docs' = length ?docs" by (metis length_map)
    have "\<forall>i \<in> fst ` set (drop (pos_of c + ?n) ?docs). i \<notin> fst ` set ?P"
    proof
      fix i assume i: "i \<in> fst ` set (drop (pos_of c + ?n) ?docs)"
      have "distinct (map fst (take ?n (drop (pos_of c) ?docs))
          @ map fst (drop ?n (drop (pos_of c) ?docs)))"
        using \<open>distinct (map fst (drop (pos_of c) ?docs))\<close>
        by (metis append_take_drop_id map_append)
      with i show "i \<notin> fst ` set ?P" by (auto simp: add.commute)
    qed
    with fr have "\<forall>i \<in> fst ` set (drop (pos_of c + ?n) ?docs).
        db_get (skillVersions (snd ?acc')) i = db_get (skillVersions (snd acc)) i"
      by blast
    with ids have drop': "drop (pos_of c + ?n) ?docs' = drop (pos_of c + ?n) ?docs"
      by (rule docs_drop_eq)
    from False have m: "min ?n (length ?docs - pos_of c) = ?n" by simp
    have "fingerprints_batches h now dry bs (Suc k) c fin acc
        = fingerprints_batches h now dry bs k (Some (pos_of c + ?n)) False ?acc'"
      using False by (simp add: Let_def isDone acc' cursor m)
    also have "\<dots> = ((if k = 0 then False
          else length ?docs' - (pos_of c + ?n) \<le> ?n * k),
        fold (fp_visit h now dry) (take (?n * k) (drop (pos_of c + ?n) ?docs')) ?acc')"
      using Suc.IH [of "Some (pos_of c + ?n)" False ?acc'] by (simp add: pos_of_def)
    also have "\<dots> = (length ?docs - pos_of c \<le> ?n * Suc k,
        fold (fp_visit h now dry) (take (?n * Suc k) (drop (pos_of c) ?docs)) acc)"
    proof -
      have flag: "(if k = 0 then False else length ?docs' - (pos_of c + ?n) \<le> ?n * k)
          = (length ?docs - pos_of c \<le> ?n * Suc k)"
        using False len by (cases k) auto
      have "take (?n * Suc k) (drop (pos_of c) ?docs)
          = ?P @ take (?n * k) (drop (pos_of c + ?n) ?docs)"
        by (simp add: take_add add.commute)
      then have "fold (fp_visit h now dry) (take (?n * Suc k) (drop (pos_of c) ?docs)) acc
          = fold (fp_visit h now dry) (take (?n * k) (drop (pos_of c + ?n) ?docs)) ?acc'"
        by simp
      with flag drop' show ?thesis by simp
    qed
    finally show ?thesis by simp
  qed
qed

section \<open>The handlers and the scan\<close>

lemma effBatchSize_pos: "0 < effBatchSize args"
  using count_of_clampBatchSize [of "batchSize args"] by (simp add: effBatchSize_def)

lemma effMaxBatches_pos: "0 < effMaxBatches args"
  using count_of_clampMaxBatches [of "maxBatches args"] by (simp add: effMaxBatches_def)

lemma fingerprints_handler_fold:
  "backfillSkillFingerprintsInternalHandler h now args st =
     (if length (db_docs (skillVersions st)) \<le> effBatchSize args * effMaxBatches args
      then Inr (fst (fold (fp_visit h now (dryRun args = Some True))
                  (take (effBatchSize args * effMaxBatches args) (db_docs (skillVersions st)))
                  (no_fp_stats, st)))
      else Inl incomplete,
      snd (fold (fp_visit h now (dryRun args = Some True))
             (take (effBatchSize args * effMaxBatches args) (db_docs (skillVersions st)))
             (no_fp_stats, st)))"
proof -
  have bs: "clampBatchSize (Some (clampBatchSize (batchSize args))) = clampBatchSize (batchSize args)"
    by simp
  have n: "0 < count_of (clampBatchSize (batchSize args))"
    using effBatchSize_pos [of args] by (simp add: effBatchSize_def)
  have m: "effMaxBatches args \<noteq> 0" using effMaxBatches_pos [of args] by simp
  show ?thesis
    unfolding backfillSkillFingerprintsInternalHandler_def Let_def
      fingerprints_batches_fold [OF bs n]
    using m by (simp add: effBatchSize_def effMaxBatches_def pos_of_def)
qed

lemma db_docs_patch_fst: "map fst (db_docs (db_patch t k f)) = map fst (db_docs t)"
  by (simp add: db_docs_patch comp_def if_distrib [of fst] cong: if_cong)

lemma summaries_item_frame:
  "storage (snd (summaries_item build now dry item acc)) = storage (snd acc)
   \<and> skillVersionFingerprints (snd (summaries_item build now dry item acc))
       = skillVersionFingerprints (snd acc)
   \<and> map fst (db_docs (skills (snd (summaries_item build now dry item acc))))
       = map fst (db_docs (skills (snd acc)))
   \<and> map fst (db_docs (skillVersions (snd (summaries_item build now dry item acc))))
       = map fst (db_docs (skillVersions (snd acc)))"
  by (cases item)
     (auto simp: summaries_item_def applySkillBackfillPatchInternal_def Let_def db_docs_patch_fst
        split: option.splits)

lemma fold_summaries_item_length:
  "length (db_docs (skills (snd (fold (summaries_item build now dry) its acc))))
     = length (db_docs (skills (snd acc)))"
proof (induction its arbitrary: acc)
  case Nil
  then show ?case by simp
next
  case (Cons it its)
  have "length (db_docs (skills (snd (summaries_item build now dry it acc))))
      = length (db_docs (skills (snd acc)))"
    using summaries_item_frame [of build now dry it acc] by (metis length_map)
  with Cons [of "summaries_item build now dry it acc"] show ?case by simp
qed

lemma summaries_batches_flag:
  assumes bs: "clampBatchSize (Some bs) = bs" and n: "0 < count_of bs"
  shows "fst (summaries_batches build now dry bs k c fin acc) =
     (if k = 0 then fin
      else length (db_docs (skills (snd acc))) - pos_of c \<le> count_of bs * k)"
proof (induction k arbitrary: c fin acc)
  case 0
  then show ?case by simp
next
  case (Suc k)
  let ?n = "count_of bs"
  let ?len = "length (db_docs (skills (snd acc)))"
  let ?page = "getSkillBackfillPageInternal (snd acc) c (Some bs)"
  let ?acc' = "fold (summaries_item build now dry) (items ?page) acc"
  have isDone: "isDone ?page = (?len - pos_of c \<le> ?n)"
    and cursor: "cursor ?page = Some (pos_of c + min ?n (?len - pos_of c))"
    by (simp_all add: getSkillBackfillPageInternal_def Let_def bs paginate_simps)
  show ?case
  proof (cases "?len - pos_of c \<le> ?n")
    case True
    then have "?len - pos_of c \<le> ?n * Suc k" by (simp add: trans_le_add1)
    with True show ?thesis by (simp add: Let_def isDone)
  next
    case False
    then have m: "min ?n (?len - pos_of c) = ?n" by simp
    have len': "length (db_docs (skills (snd ?acc'))) = ?len"
      by (rule fold_summaries_item_length)
    have "fst (summaries_batches build now dry bs (Suc k) c fin acc)
        = fst (summaries_batches build now dry bs k (Some (pos_of c + ?n)) False ?acc')"
      using False by (simp add: Let_def isDone cursor m)
    also have "\<dots> = (if k = 0 then False else ?len - (pos_of c + ?n) \<le> ?n * k)"
      using Suc.IH [of "Some (pos_of c + ?n)" False ?acc'] by (simp add: pos_of_def len')
    also have "\<dots> = (?len - pos_of c \<le> ?n * Suc k)"
      using False by (cases k) auto
    finally show ?thesis by simp
  qed
qed

lemma summaries_handler_flag:
  "fst (backfillSkillSummariesInternalHandler build now args st) =
     (if length (db_docs (skills st)) \<le> effBatchSize args * effMaxBatches args
      then Inr (fst (snd (summaries_batches build now (dryRun args = Some True)
                  (clampBatchSize (batchSize args)) (effMaxBatches args) None False
                  (no_stats, st))))
      else Inl incomplete)"
proof -
  have bs: "clampBatchSize (Some (clampBatchSize (batchSize args))) = clampBatchSize (batchSize args)"
    by simp
  have n: "0 < count_of (clampBatchSize (batchSize args))"
    using effBatchSize_pos [of args] by (simp add: effBatchSize_def)
  have m: "effMaxBatches args \<noteq> 0" using effMaxBatches_pos [of args] by simp
  show ?thesis
    unfolding backfillSkillSummariesInternalHandler_def Let_def
    using m summaries_batches_flag [OF bs n, of build now "dryRun args = Some True"
        "effMaxBatches args" None False "(no_stats, st)"]
    by (simp add: effBatchSize_def effMaxBatches_def pos_of_def)
qed

text \<open>
  C2. A run of either orchestrator returns \<open>{ok: true, stats}\<close> if the paginated scan
  of its table reaches \<open>isDone = true\<close> within \<open>maxBatches\<close> page fetches of \<open>batchSize\<close>
  documents (both as clamped), and otherwise raises
  \<open>Backfill incomplete (maxBatches reached)\<close> and returns no stats; the scan reaches
  \<open>isDone\<close> whenever the table holds at most \<open>batchSize * maxBatches\<close> documents.
\<close>

theorem C2_completion_contract:
  "(scan_done (skills st) (effBatchSize args) (effMaxBatches args) None \<longrightarrow>
      (\<exists>stats. fst (backfillSkillSummariesInternalHandler build now args st) = Inr stats))
   \<and> (\<not> scan_done (skills st) (effBatchSize args) (effMaxBatches args) None \<longrightarrow>
      fst (backfillSkillSummariesInternalHandler build now args st)
        = Inl ''Backfill incomplete (maxBatches reached)'')
   \<and> (length (db_docs (skills st)) \<le> effBatchSize args * effMaxBatches args \<longrightarrow>
      scan_done (skills st) (effBatchSize args) (effMaxBatches args) None)
   \<and> (scan_done (skillVersions st) (effBatchSize args) (effMaxBatches args) None \<longrightarrow>
      (\<exists>stats. fst (backfillSkillFingerprintsInternalHandler h now args st) = Inr stats))
   \<and> (\<not> scan_done (skillVersions st) (effBatchSize args) (effMaxBatches args) None \<longrightarrow>
      fst (backfillSkillFingerprintsInternalHandler h now args st)
        = Inl ''Backfill incomplete (maxBatches reached)'')
   \<and> (length (db_docs (skillVersions st)) \<le> effBatchSize args * effMaxBatches args \<longrightarrow>
      scan_done (skillVersions st) (effBatchSize args) (effMaxBatches args) None)"
proof -
  have s: "scan_done (skills st) (effBatchSize args) (effMaxBatches args) None
      = (length (db_docs (skills st)) \<le> effBatchSize args * effMaxBatches args)"
    using scan_done_iff [OF effBatchSize_pos, of "skills st" args "effMaxBatches args" None]
      effMaxBatches_pos [of args]
    by (simp add: pos_of_def)
  have v: "scan_done (skillVersions st) (effBatchSize args) (effMaxBatches args) None
      = (length (db_docs (skillVersions st)) \<le> effBatchSize args * effMaxBatches args)"
    using scan_done_iff [OF effBatchSize_pos, of "skillVersions st" args "effMaxBatches args" None]
      effMaxBatches_pos [of args]
    by (simp add: pos_of_def)
  show ?thesis
    unfolding s v summaries_handler_flag fingerprints_handler_fold
    by (simp add: incomplete_def)
qed

theorem C2_completion_contract_witness:
  "scan_done (skillVersions example_store) (effBatchSize small_batches)
       (effMaxBatches small_batches) None
   \<and> length (db_docs (skillVersions example_store))
       \<le> effBatchSize small_batches * effMaxBatches small_batches
   \<and> (\<exists>stats. fst (backfillSkillFingerprintsInternalHandler hashSkillFiles_model 9
                      small_batches example_store) = Inr stats)
   \<and> \<not> scan_done (skills example_store) (effBatchSize small_batches)
         (effMaxBatches small_batches) None
   \<and> fst (backfillSkillSummariesInternalHandler buildSkillSummaryBackfillPatch_model 9
            small_batches example_store)
       = Inl ''Backfill incomplete (maxBatches reached)''"
proof -
  have n: "effBatchSize small_batches = 1" and m: "effMaxBatches small_batches = 2"
    by (simp_all add: effBatchSize_def effMaxBatches_def small_batches_def clamp_defs)
  have lv: "length (db_docs (skillVersions example_store)) = 2"
    and ls: "length (db_docs (skills example_store)) = 4"
    by (simp_all add: example_store_def db_docs_def)
  have a: "length (db_docs (skillVersions example_store))
       \<le> effBatchSize small_batches * effMaxBatches small_batches"
    by (simp add: n m lv)
  have b: "\<not> scan_done (skills example_store) (effBatchSize small_batches)
         (effMaxBatches small_batches) None"
    by (simp add: n m ls scan_done_iff pos_of_def)
  note C = C2_completion_contract [of example_store small_batches
      buildSkillSummaryBackfillPatch_model 9 hashSkillFiles_model]
  from C a have c: "scan_done (skillVersions example_store) (effBatchSize small_batches)
       (effMaxBatches small_batches) None" by blast
  from C c have d: "\<exists>stats. fst (backfillSkillFingerprintsInternalHandler hashSkillFiles_model 9
                      small_batches example_store) = Inr stats" by blast
  from C b have e: "fst (backfillSkillSummariesInternalHandler
        buildSkillSummaryBackfillPatch_model 9 small_batches example_store)
       = Inl ''Backfill incomplete (maxBatches reached)''" by blast
  from a b c d e show ?thesis by blast
qed

section \<open>Summary backfill: the counters of missing versions\<close>

lemma summaries_batches_one_page:
  assumes "0 < k" and "isDone (getSkillBackfillPageInternal (snd acc) c (Some bs))"
  shows "summaries_batches build now dry bs k c fin acc =
     (True, fold (summaries_item build now dry)
              (items (getSkillBackfillPageInternal (snd acc) c (Some bs))) acc)"
proof -
  from assms(1) obtain k' where "k = Suc k'" by (cases k) auto
  with assms(2) show ?thesis by (simp add: Let_def)
qed

text \<open>
  C6. In the summary orchestrator an item of kind \<open>missingVersionDoc\<close> is counted as an
  item of kind \<open>missingLatestVersion\<close> is: both add one to \<open>skillsScanned\<close> and one to
  \<open>missingLatestVersion\<close>, and leave the store alone. On a store whose only skill has
  no \<open>latestVersionId\<close>, a run completes with \<open>skillsScanned = 1\<close>,
  \<open>missingLatestVersion = 1\<close>, \<open>skillsPatched = 0\<close> and every other counter zero, and
  the store unchanged.
\<close>

theorem C6_missing_version_counted:
  "summaries_item build now dry (MissingVersionDoc sid vid) acc
     = summaries_item build now dry (MissingLatestVersion sid) acc
   \<and> summaries_item build now dry (MissingVersionDoc sid vid) acc
     = ((fst acc)\<lparr>skillsScanned := skillsScanned (fst acc) + 1,
                  missingLatestVersion := missingLatestVersion (fst acc) + 1\<rparr>, snd acc)
   \<and> (db_docs (skills st) = [(sid, sk)] \<and> latestVersionId sk = None \<longrightarrow>
        backfillSkillSummariesInternalHandler build now args st
          = (Inr \<lparr>skillsScanned = 1, skillsPatched = 0, versionsPatched = 0,
                  missingLatestVersion = 1, missingReadme = 0, missingStorageBlob = 0\<rparr>, st))"
proof -
  have a: "summaries_item build now dry (MissingVersionDoc sid vid) acc
     = summaries_item build now dry (MissingLatestVersion sid) acc"
    by (simp add: summaries_item_def Let_def)
  have b: "summaries_item build now dry (MissingVersionDoc sid vid) acc
     = ((fst acc)\<lparr>skillsScanned := skillsScanned (fst acc) + 1,
                  missingLatestVersion := missingLatestVersion (fst acc) + 1\<rparr>, snd acc)"
    by (simp add: summaries_item_def Let_def)
  have c: "db_docs (skills st) = [(sid, sk)] \<and> latestVersionId sk = None \<longrightarrow>
        backfillSkillSummariesInternalHandler build now args st
          = (Inr \<lparr>skillsScanned = 1, skillsPatched = 0, versionsPatched = 0,
                  missingLatestVersion = 1, missingReadme = 0, missingStorageBlob = 0\<rparr>, st)"
  proof
    assume h: "db_docs (skills st) = [(sid, sk)] \<and> latestVersionId sk = None"
    let ?bs = "clampBatchSize (batchSize args)"
    let ?page = "getSkillBackfillPageInternal st None (Some ?bs)"
    have n: "0 < count_of ?bs"
      using effBatchSize_pos [of args] by (simp add: effBatchSize_def)
    then have tk: "take (count_of ?bs) [(sid, sk)] = [(sid, sk)]"
      by (cases "count_of ?bs") simp_all
    from h n have dn: "isDone ?page"
      by (simp add: getSkillBackfillPageInternal_def Let_def paginate_simps pos_of_def Suc_le_eq)
    from h tk have its: "items ?page = [MissingLatestVersion sid]"
      by (simp add: getSkillBackfillPageInternal_def Let_def paginate_simps pos_of_def
          classifySkill_def)
    have m: "0 < count_of (clampMaxBatches (maxBatches args))"
      using effMaxBatches_pos [of args] by (simp add: effMaxBatches_def)
    have "summaries_batches build now (dryRun args = Some True) ?bs
        (count_of (clampMaxBatches (maxBatches args))) None False (no_stats, st)
        = (True, fold (summaries_item build now (dryRun args = Some True)) (items ?page)
                   (no_stats, st))"
      using summaries_batches_one_page [OF m, of "(no_stats, st)" None ?bs] dn by simp
    then show "backfillSkillSummariesInternalHandler build now args st
          = (Inr \<lparr>skillsScanned = 1, skillsPatched = 0, versionsPatched = 0,
                  missingLatestVersion = 1, missingReadme = 0, missingStorageBlob = 0\<rparr>, st)"
      by (simp add: backfillSkillSummariesInternalHandler_def Let_def its summaries_item_def
          no_stats_def)
  qed
  from a b c show ?thesis by blast
qed

theorem C6_missing_version_counted_witness:
  "db_docs (skills lone_skill_store)
     = [(0, \<lparr>latestVersionId = None, summary = Some ''s'', updatedAt = 3\<rparr>)]
   \<and> latestVersionId \<lparr>latestVersionId = None, summary = Some ''s'', updatedAt = 3\<rparr> = None
   \<and> backfillSkillSummariesInternalHandler buildSkillSummaryBackfillPatch_model 9 no_args
        lone_skill_store
       = (Inr \<lparr>skillsScanned = 1, skillsPatched = 0, versionsPatched = 0,
               missingLatestVersion = 1, missingReadme = 0, missingStorageBlob = 0\<rparr>,
          lone_skill_store)"
proof -
  have d: "db_docs (skills lone_skill_store)
     = [(0, \<lparr>latestVersionId = None, summary = Some ''s'', updatedAt = 3\<rparr>)]"
    by (simp add: lone_skill_store_def db_docs_def)
  have l: "latestVersionId \<lparr>latestVersionId = None, summary = Some ''s'', updatedAt = 3\<rparr> = None"
    by simp
  from C6_missing_version_counted [where build = buildSkillSummaryBackfillPatch_model
      and now = 9 and dry = False and sid = 0 and vid = 0
      and acc = "(no_stats, lone_skill_store)" and st = lone_skill_store
      and sk = "\<lparr>latestVersionId = None, summary = Some ''s'', updatedAt = 3\<rparr>"
      and args = no_args] d l
  have "backfillSkillSummariesInternalHandler buildSkillSummaryBackfillPatch_model 9 no_args
        lone_skill_store
       = (Inr \<lparr>skillsScanned = 1, skillsPatched = 0, versionsPatched = 0,
               missingLatestVersion = 1, missingReadme = 0, missingStorageBlob = 0\<rparr>,
          lone_skill_store)"
    by blast
  with d l show ?thesis by blast
qed

section \<open>Fingerprint backfill: what a run does to one version\<close>

lemma fp_visit_own:
  assumes v: "db_get (skillVersions (snd acc)) vid = Some v"
    and it: "fingerprintItem (snd acc) (vid, v) = Some it"
  shows "db_get (skillVersions (snd (fp_visit h now False (vid, v) acc))) vid
      = (if item_version_correct h it then Some v
         else Some (v\<lparr>fingerprint := Some (canonical h v)\<rparr>))
    \<and> entriesByVersion (snd (fp_visit h now False (vid, v) acc)) vid
      = (if item_entry_correct h it then entriesByVersion (snd acc) vid
         else drop 20 (entriesByVersion (snd acc) vid)
              @ [(length (skillVersionFingerprints (snd acc)),
                  \<lparr>e_skillId = v_skillId v, e_versionId = vid,
                   e_fingerprint = canonical h v, createdAt = now\<rparr>)])"
proof -
  note f = fingerprintItem_fields [OF it]
  from f have hf: "h (i_files it) = canonical h v" by (simp add: canonical_def)
  show ?thesis
  proof (cases "item_version_correct h it \<and> item_entry_correct h it")
    case True
    with it v show ?thesis by (simp add: fp_visit_def fingerprints_item_store)
  next
    case False
    let ?ids = "Some (if \<not> item_entry_correct h it then map fst (existingEntries it) else [])"
    let ?st' = "snd (applySkillFingerprintBackfillPatchInternal now vid (canonical h v)
                  (\<not> item_version_correct h it) (\<not> item_entry_correct h it) ?ids (snd acc))"
    from False it f hf have st': "snd (fp_visit h now False (vid, v) acc) = ?st'"
      by (auto simp: fp_visit_def fingerprints_item_store)
    have ver: "db_get (skillVersions ?st') vid
        = (if item_version_correct h it then Some v
           else Some (v\<lparr>fingerprint := Some (canonical h v)\<rparr>))"
      using v by (simp add: applier_version)
    have ent: "entriesByVersion ?st' vid
        = (if item_entry_correct h it then entriesByVersion (snd acc) vid
           else drop 20 (entriesByVersion (snd acc) vid)
              @ [(length (skillVersionFingerprints (snd acc)),
                  \<lparr>e_skillId = v_skillId v, e_versionId = vid,
                   e_fingerprint = canonical h v, createdAt = now\<rparr>)])"
    proof (cases "item_entry_correct h it")
      case True
      have "db_docs (skillVersionFingerprints ?st') = db_docs (skillVersionFingerprints (snd acc))"
        using v True by (simp add: applier_docs)
      with True show ?thesis by (simp add: entriesByVersion_def)
    next
      case F: False
      have ids: "?ids = Some (map fst (take 20 (entriesByVersion (snd acc) vid)))"
        using F f by (simp add: comp_def)
      from F applier_entries_own [OF v ids, of now "canonical h v" "\<not> item_version_correct h it"]
      show ?thesis by simp
    qed
    from ver ent show ?thesis unfolding st' by simp
  qed
qed


lemma fold_fp_visit_own:
  "distinct (map fst D) \<Longrightarrow> (vid, v) \<in> set D \<Longrightarrow>
   \<exists>acc1. db_get (skillVersions (snd acc1)) vid = db_get (skillVersions (snd acc)) vid
     \<and> entriesByVersion (snd acc1) vid = entriesByVersion (snd acc) vid
     \<and> db_get (skillVersions (snd (fold (fp_visit h now dry) D acc))) vid
         = db_get (skillVersions (snd (fp_visit h now dry (vid, v) acc1))) vid
     \<and> entriesByVersion (snd (fold (fp_visit h now dry) D acc)) vid
         = entriesByVersion (snd (fp_visit h now dry (vid, v) acc1)) vid"
proof (induction D arbitrary: acc)
  case Nil
  then show ?case by simp
next
  case (Cons d D)
  obtain w u where d: "d = (w, u)" by (cases d)
  let ?acc' = "fp_visit h now dry (w, u) acc"
  show ?case
  proof (cases "(vid, v) = (w, u)")
    case True
    from Cons.prems(1) have "vid \<notin> fst ` set D" unfolding d using True by simp
    with fold_fp_visit_frame [of h now dry D ?acc']
    have "db_get (skillVersions (snd (fold (fp_visit h now dry) D ?acc'))) vid
          = db_get (skillVersions (snd ?acc')) vid
        \<and> entriesByVersion (snd (fold (fp_visit h now dry) D ?acc')) vid
          = entriesByVersion (snd ?acc') vid"
      by blast
    then have "db_get (skillVersions (snd acc)) vid = db_get (skillVersions (snd acc)) vid
     \<and> entriesByVersion (snd acc) vid = entriesByVersion (snd acc) vid
     \<and> db_get (skillVersions (snd (fold (fp_visit h now dry) (d # D) acc))) vid
         = db_get (skillVersions (snd (fp_visit h now dry (vid, v) acc))) vid
     \<and> entriesByVersion (snd (fold (fp_visit h now dry) (d # D) acc)) vid
         = entriesByVersion (snd (fp_visit h now dry (vid, v) acc)) vid"
      unfolding d using True by simp
    then show ?thesis by blast
  next
    case False
    with Cons.prems(2) have mem: "(vid, v) \<in> set D" unfolding d by auto
    from Cons.prems(1) have dist: "distinct (map fst D)" and "w \<notin> fst ` set D"
      unfolding d by simp_all
    with mem have "vid \<noteq> w" by force
    with fp_visit_frame [of h now dry w u acc]
    have same: "db_get (skillVersions (snd ?acc')) vid = db_get (skillVersions (snd acc)) vid"
      "entriesByVersion (snd ?acc') vid = entriesByVersion (snd acc) vid"
      by blast+
    from Cons.IH [OF dist mem, of ?acc'] obtain acc1 where
      a: "db_get (skillVersions (snd acc1)) vid = db_get (skillVersions (snd ?acc')) vid"
        "entriesByVersion (snd acc1) vid = entriesByVersion (snd ?acc') vid"
        "db_get (skillVersions (snd (fold (fp_visit h now dry) D ?acc'))) vid
           = db_get (skillVersions (snd (fp_visit h now dry (vid, v) acc1))) vid"
        "entriesByVersion (snd (fold (fp_visit h now dry) D ?acc')) vid
           = entriesByVersion (snd (fp_visit h now dry (vid, v) acc1)) vid"
      by blast
    from a same have "db_get (skillVersions (snd acc1)) vid = db_get (skillVersions (snd acc)) vid
     \<and> entriesByVersion (snd acc1) vid = entriesByVersion (snd acc) vid
     \<and> db_get (skillVersions (snd (fold (fp_visit h now dry) (d # D) acc))) vid
         = db_get (skillVersions (snd (fp_visit h now dry (vid, v) acc1))) vid
     \<and> entriesByVersion (snd (fold (fp_visit h now dry) (d # D) acc)) vid
         = entriesByVersion (snd (fp_visit h now dry (vid, v) acc1)) vid"
      unfolding d by simp
    then show ?thesis by blast
  qed
qed

text \<open>The entries of a version after a run: as before, or without the first 20 and
  with one new entry at the end.\<close>

lemma fp_visit_entries_cases:
  "entriesByVersion (snd (fp_visit h now dry (vid, v) acc)) vid = entriesByVersion (snd acc) vid
   \<or> (\<exists>e. entriesByVersion (snd (fp_visit h now dry (vid, v) acc)) vid
          = drop 20 (entriesByVersion (snd acc) vid)
            @ [(length (skillVersionFingerprints (snd acc)), e)])"
proof (cases "fingerprintItem (snd acc) (vid, v)")
  case None
  then show ?thesis by (simp add: fp_visit_def)
next
  case (Some it)
  note f = fingerprintItem_fields [OF Some]
  show ?thesis
  proof (cases "dry \<or> (item_version_correct h it \<and> item_entry_correct h it)")
    case True
    with Some show ?thesis by (simp add: fp_visit_def fingerprints_item_store)
  next
    case False
    let ?ids = "Some (if \<not> item_entry_correct h it then map fst (existingEntries it) else [])"
    let ?st' = "snd (applySkillFingerprintBackfillPatchInternal now vid (h (i_files it))
                  (\<not> item_version_correct h it) (\<not> item_entry_correct h it) ?ids (snd acc))"
    from False Some f have st': "snd (fp_visit h now dry (vid, v) acc) = ?st'"
      by (auto simp: fp_visit_def fingerprints_item_store)
    show ?thesis
    proof (cases "db_get (skillVersions (snd acc)) vid")
      case None
      then have "?st' = snd acc" by (simp add: applier_missing)
      then show ?thesis unfolding st' by simp
    next
      case (Some u)
      show ?thesis
      proof (cases "item_entry_correct h it")
        case True
        have "db_docs (skillVersionFingerprints ?st') = db_docs (skillVersionFingerprints (snd acc))"
          using Some True by (simp add: applier_docs)
        then show ?thesis unfolding st' by (simp add: entriesByVersion_def)
      next
        case F: False
        have ids: "?ids = Some (map fst (take 20 (entriesByVersion (snd acc) vid)))"
          using F f by (simp add: comp_def)
        from F applier_entries_own [OF Some ids, of now "h (i_files it)"
            "\<not> item_version_correct h it"]
        show ?thesis unfolding st' by simp
      qed
    qed
  qed
qed

section \<open>Evaluating a fingerprint run\<close>

lemmas fp_run_eval = fingerprints_handler_fold effBatchSize_def effMaxBatches_def clamp_defs
  fp_visit_def fingerprintItem_def fingerprints_item_def
  applySkillFingerprintBackfillPatchInternal_def entriesByVersion_def db_docs_def db_get_def
  db_patch_def db_delete_def db_insert_def truthy_def Let_def no_fp_stats_def
  hashSkillFiles_model_def no_args_def

lemma crowded_run:
  "backfillSkillFingerprintsInternalHandler hashSkillFiles_model 9 no_args crowded_store =
     (Inr \<lparr>versionsScanned = 1, fp_versionsPatched = 1, fingerprintsInserted = 1,
            fingerprintMismatches = 1\<rparr>,
      crowded_store\<lparr>skillVersions :=
        [Some \<lparr>v_skillId = 0, files = [\<lparr>path = ''a'', sha256 = ''1'', storageId = 0\<rparr>],
               parsed = ''p'', fingerprint = Some ''a:1;''\<rparr>],
        skillVersionFingerprints :=
          replicate 20 None
          @ [Some \<lparr>e_skillId = 0, e_versionId = 0, e_fingerprint = ''x'', createdAt = 1\<rparr>,
             Some \<lparr>e_skillId = 0, e_versionId = 0, e_fingerprint = ''a:1;'', createdAt = 9\<rparr>]\<rparr>)"
  by (simp add: crowded_store_def fp_run_eval eval_nat_numeral)


section \<open>Fingerprint backfill: at most 20 deletions and one insertion per version\<close>

lemma removed_bound:
  "length (filter (\<lambda>p. fst p \<notin> fst ` set (drop k E @ [x])) E) \<le> k"
proof -
  let ?P = "\<lambda>p. fst p \<notin> fst ` set (drop k E @ [x])"
  have "filter ?P (drop k E) = []" by (auto simp: filter_empty_conv)
  then have "filter ?P E = filter ?P (take k E)"
    by (metis append_Nil2 append_take_drop_id filter_append)
  also have "length \<dots> \<le> length (take k E)" by (rule length_filter_le)
  finally show ?thesis by simp
qed

lemma added_bound:
  "length (filter (\<lambda>p. fst p \<notin> fst ` set E) (drop k E @ [x])) \<le> 1"
proof -
  have "filter (\<lambda>p. fst p \<notin> fst ` set E) (drop k E) = []"
    by (auto simp: filter_empty_conv dest: in_set_dropD)
  then show ?thesis by simp
qed

lemma fp_run_entries_cases:
  "entriesByVersion (snd (backfillSkillFingerprintsInternalHandler h now args st)) vid
     = entriesByVersion st vid
   \<or> (\<exists>x. entriesByVersion (snd (backfillSkillFingerprintsInternalHandler h now args st)) vid
          = drop 20 (entriesByVersion st vid) @ [x])"
proof -
  let ?dry = "dryRun args = Some True"
  let ?D = "take (effBatchSize args * effMaxBatches args) (db_docs (skillVersions st))"
  let ?st' = "snd (fold (fp_visit h now ?dry) ?D (no_fp_stats, st))"
  have st': "snd (backfillSkillFingerprintsInternalHandler h now args st) = ?st'"
    by (simp add: fingerprints_handler_fold)
  have dist: "distinct (map fst ?D)"
    using db_docs_distinct [of "skillVersions st"] by (simp add: take_map [symmetric])
  show ?thesis
  proof (cases "vid \<in> fst ` set ?D")
    case False
    with fold_fp_visit_frame [of h now ?dry ?D "(no_fp_stats, st)"]
    have "entriesByVersion ?st' vid = entriesByVersion st vid" by simp
    then show ?thesis unfolding st' by simp
  next
    case True
    then obtain v where v: "(vid, v) \<in> set ?D" by auto
    from fold_fp_visit_own [OF dist v, where acc = "(no_fp_stats, st)" and h = h and now = now
        and dry = ?dry] obtain acc1 where
      a: "entriesByVersion (snd acc1) vid = entriesByVersion st vid"
        "entriesByVersion ?st' vid = entriesByVersion (snd (fp_visit h now ?dry (vid, v) acc1)) vid"
      by auto
    from fp_visit_entries_cases [of h now ?dry vid v acc1] a
    show ?thesis unfolding st' by auto
  qed
qed

text \<open>
  C10. Every work item of the fingerprint page fetcher lists at most 20 existing
  entries, each an entry of the item's version; the orchestrator's step on an item
  either leaves the store alone or calls the applier with no other identities to
  delete than the item's; and for every version, a run of the fingerprint backfill
  removes at most 20 of the entries the version had before and adds at most one.
\<close>

theorem C10_bounded_replacement:
  "(\<forall>it\<in>set (items (getSkillFingerprintBackfillPageInternal st c b)).
      length (existingEntries it) \<le> 20
      \<and> set (existingEntries it)
          \<subseteq> (\<lambda>e. (fst e, e_fingerprint (snd e))) ` set (entriesByVersion st (i_versionId it)))
   \<and> (snd (fingerprints_item h now dry item acc) = snd acc
       \<or> (\<exists>pv re ids. set ids \<subseteq> fst ` set (existingEntries item)
             \<and> snd (fingerprints_item h now dry item acc)
                 = snd (applySkillFingerprintBackfillPatchInternal now (i_versionId item)
                          (h (i_files item)) pv re (Some ids) (snd acc))))
   \<and> length (filter (\<lambda>p. fst p \<notin> fst ` set (entriesByVersion
          (snd (backfillSkillFingerprintsInternalHandler h now args st)) vid))
        (entriesByVersion st vid)) \<le> 20
   \<and> length (filter (\<lambda>p. fst p \<notin> fst ` set (entriesByVersion st vid))
        (entriesByVersion (snd (backfillSkillFingerprintsInternalHandler h now args st)) vid))
       \<le> 1"
proof -
  have a: "\<forall>it\<in>set (items (getSkillFingerprintBackfillPageInternal st c b)).
      length (existingEntries it) \<le> 20
      \<and> set (existingEntries it)
          \<subseteq> (\<lambda>e. (fst e, e_fingerprint (snd e))) ` set (entriesByVersion st (i_versionId it))"
  proof
    fix it assume "it \<in> set (items (getSkillFingerprintBackfillPageInternal st c b))"
    then obtain d where "fingerprintItem st d = Some it"
      by (auto simp: getSkillFingerprintBackfillPageInternal_def Let_def map_filter_def)
    then have "fingerprintItem st (fst d, snd d) = Some it" by simp
    from fingerprintItem_fields [OF this]
    show "length (existingEntries it) \<le> 20
      \<and> set (existingEntries it)
          \<subseteq> (\<lambda>e. (fst e, e_fingerprint (snd e))) ` set (entriesByVersion st (i_versionId it))"
      by (auto dest: in_set_takeD)
  qed
  have b: "snd (fingerprints_item h now dry item acc) = snd acc
       \<or> (\<exists>pv re ids. set ids \<subseteq> fst ` set (existingEntries item)
             \<and> snd (fingerprints_item h now dry item acc)
                 = snd (applySkillFingerprintBackfillPatchInternal now (i_versionId item)
                          (h (i_files item)) pv re (Some ids) (snd acc)))"
  proof (cases "dry \<or> (item_version_correct h item \<and> item_entry_correct h item)")
    case True
    then show ?thesis by (simp add: fingerprints_item_store)
  next
    case False
    let ?ids = "if \<not> item_entry_correct h item then map fst (existingEntries item) else []"
    have "set ?ids \<subseteq> fst ` set (existingEntries item)" by auto
    moreover from False have "snd (fingerprints_item h now dry item acc)
        = snd (applySkillFingerprintBackfillPatchInternal now (i_versionId item)
                 (h (i_files item)) (\<not> item_version_correct h item)
                 (\<not> item_entry_correct h item) (Some ?ids) (snd acc))"
      by (auto simp: fingerprints_item_store)
    ultimately show ?thesis by blast
  qed
  have c: "length (filter (\<lambda>p. fst p \<notin> fst ` set (entriesByVersion
          (snd (backfillSkillFingerprintsInternalHandler h now args st)) vid))
        (entriesByVersion st vid)) \<le> 20
   \<and> length (filter (\<lambda>p. fst p \<notin> fst ` set (entriesByVersion st vid))
        (entriesByVersion (snd (backfillSkillFingerprintsInternalHandler h now args st)) vid))
       \<le> 1"
    using fp_run_entries_cases [of h now args st vid]
  proof
    assume "entriesByVersion (snd (backfillSkillFingerprintsInternalHandler h now args st)) vid
        = entriesByVersion st vid"
    then show ?thesis by (simp add: filter_empty_conv)
  next
    assume "\<exists>x. entriesByVersion (snd (backfillSkillFingerprintsInternalHandler h now args st)) vid
          = drop 20 (entriesByVersion st vid) @ [x]"
    then obtain x where
      "entriesByVersion (snd (backfillSkillFingerprintsInternalHandler h now args st)) vid
          = drop 20 (entriesByVersion st vid) @ [x]" by blast
    then show ?thesis
      using removed_bound [of 20 "entriesByVersion st vid" x]
        added_bound [of "entriesByVersion st vid" 20 x]
      by simp
  qed
  from a b c show ?thesis by blast
qed


theorem C10_bounded_replacement_witness:
  "map (\<lambda>it. length (existingEntries it))
       (items (getSkillFingerprintBackfillPageInternal crowded_store None None)) = [20]
   \<and> length (filter (\<lambda>p. fst p \<notin> fst ` set (entriesByVersion
          (snd (backfillSkillFingerprintsInternalHandler hashSkillFiles_model 9 no_args
                 crowded_store)) 0))
        (entriesByVersion crowded_store 0)) \<le> 20
   \<and> length (filter (\<lambda>p. fst p \<notin> fst ` set (entriesByVersion crowded_store 0))
        (entriesByVersion (snd (backfillSkillFingerprintsInternalHandler hashSkillFiles_model 9
                                  no_args crowded_store)) 0)) \<le> 1
   \<and> length (entriesByVersion crowded_store 0) = 21
   \<and> map fst (entriesByVersion (snd (backfillSkillFingerprintsInternalHandler
         hashSkillFiles_model 9 no_args crowded_store)) 0) = [20, 21]"
proof -
  note C = C10_bounded_replacement [where st = crowded_store and c = None and b = None
      and h = hashSkillFiles_model and now = 9 and args = no_args and vid = 0]
  have a: "map (\<lambda>it. length (existingEntries it))
       (items (getSkillFingerprintBackfillPageInternal crowded_store None None)) = [20]"
    by (simp add: crowded_store_def fp_eval clamp_defs eval_nat_numeral)
  from C have b: "length (filter (\<lambda>p. fst p \<notin> fst ` set (entriesByVersion
          (snd (backfillSkillFingerprintsInternalHandler hashSkillFiles_model 9 no_args
                 crowded_store)) 0))
        (entriesByVersion crowded_store 0)) \<le> 20"
    by blast
  from C have c: "length (filter (\<lambda>p. fst p \<notin> fst ` set (entriesByVersion crowded_store 0))
        (entriesByVersion (snd (backfillSkillFingerprintsInternalHandler hashSkillFiles_model 9
                                  no_args crowded_store)) 0)) \<le> 1"
    by blast
  have d: "length (entriesByVersion crowded_store 0) = 21"
    by (simp add: crowded_store_def entriesByVersion_def db_docs_def eval_nat_numeral)
  have e: "map fst (entriesByVersion (snd (backfillSkillFingerprintsInternalHandler
         hashSkillFiles_model 9 no_args crowded_store)) 0) = [20, 21]"
    unfolding crowded_run by (simp add: entriesByVersion_def db_docs_def eval_nat_numeral)
  from a b c d e show ?thesis by blast
qed

section \<open>Fingerprint backfill: repair of an emitted version\<close>

lemma remdups_single_iff:
  "(length (remdups xs) = 1 \<and> c \<in> set xs) = (xs \<noteq> [] \<and> (\<forall>x\<in>set xs. x = c))"
proof
  assume a: "length (remdups xs) = 1 \<and> c \<in> set xs"
  then have "card (set xs) = 1" by (simp add: length_remdups_card_conv)
  then obtain d where d: "set xs = {d}" by (auto simp: card_1_singleton_iff)
  with a have "d = c" by simp
  with d have "\<forall>x\<in>set xs. x = c" by simp
  moreover from a have "xs \<noteq> []" by auto
  ultimately show "xs \<noteq> [] \<and> (\<forall>x\<in>set xs. x = c)" by simp
next
  assume b: "xs \<noteq> [] \<and> (\<forall>x\<in>set xs. x = c)"
  then obtain y where "y \<in> set xs" by (cases xs) auto
  with b have c: "c \<in> set xs" by auto
  with b have "set xs = {c}" by blast
  then have "card (set xs) = 1" by simp
  then have "length (remdups xs) = 1" by (simp add: length_remdups_card_conv)
  with c show "length (remdups xs) = 1 \<and> c \<in> set xs" by simp
qed

lemma item_entry_correct_iff:
  assumes it: "fingerprintItem st (vid, v) = Some it"
    and small: "length (entriesByVersion st vid) \<le> 20"
  shows "item_entry_correct h it
     = (entriesByVersion st vid \<noteq> []
        \<and> (\<forall>e\<in>set (entriesByVersion st vid). e_fingerprint (snd e) = canonical h v))"
proof -
  note f = fingerprintItem_fields [OF it]
  let ?E = "entriesByVersion st vid"
  let ?fps = "map (\<lambda>e. e_fingerprint (snd e)) ?E"
  from small have tk: "take 20 ?E = ?E" by simp
  from f have eq: "existingEntries it = map (\<lambda>entry. (fst entry, e_fingerprint (snd entry))) ?E"
    unfolding tk by blast
  then have ex: "map snd (existingEntries it) = ?fps" by (simp add: comp_def)
  from f have hf: "h (i_files it) = canonical h v" by (simp add: canonical_def)
  from eq have len: "length (existingEntries it) = length ?E" by simp
  have "item_entry_correct h it = (length (remdups ?fps) = 1 \<and> canonical h v \<in> set ?fps)"
  proof (cases "?E = []")
    case True
    then show ?thesis unfolding item_entry_correct_def ex hf len by simp
  next
    case False
    then show ?thesis unfolding item_entry_correct_def ex hf len by simp
  qed
  also have "\<dots> = (?fps \<noteq> [] \<and> (\<forall>x\<in>set ?fps. x = canonical h v))"
    by (rule remdups_single_iff)
  also have "\<dots> = (?E \<noteq> [] \<and> (\<forall>e\<in>set ?E. e_fingerprint (snd e) = canonical h v))"
    by simp
  finally show ?thesis .
qed

lemma fp_visit_repairs:
  assumes v: "db_get (skillVersions (snd acc)) vid = Some v"
    and small: "length (entriesByVersion (snd acc) vid) \<le> 20"
    and emitted: "fingerprintItem (snd acc) (vid, v) \<noteq> None"
  shows "db_get (skillVersions (snd (fp_visit h now False (vid, v) acc))) vid
       = Some (v\<lparr>fingerprint := Some (canonical h v)\<rparr>)
     \<and> entriesByVersion (snd (fp_visit h now False (vid, v) acc)) vid \<noteq> []
     \<and> (\<forall>e\<in>set (entriesByVersion (snd (fp_visit h now False (vid, v) acc)) vid).
           e_fingerprint (snd e) = canonical h v)
     \<and> (if entriesByVersion (snd acc) vid \<noteq> []
            \<and> (\<forall>e\<in>set (entriesByVersion (snd acc) vid). e_fingerprint (snd e) = canonical h v)
         then entriesByVersion (snd (fp_visit h now False (vid, v) acc)) vid
              = entriesByVersion (snd acc) vid
         else length (entriesByVersion (snd (fp_visit h now False (vid, v) acc)) vid) = 1)"
proof -
  from emitted obtain it where it: "fingerprintItem (snd acc) (vid, v) = Some it" by blast
  note f = fingerprintItem_fields [OF it]
  note own = fp_visit_own [OF v it, of h now]
  note ec = item_entry_correct_iff [OF it small, of h]
  have vc: "item_version_correct h it = (fingerprint v = Some (canonical h v))"
    using f by (simp add: item_version_correct_def canonical_def)
  have ver: "db_get (skillVersions (snd (fp_visit h now False (vid, v) acc))) vid
       = Some (v\<lparr>fingerprint := Some (canonical h v)\<rparr>)"
  proof (cases "item_version_correct h it")
    case True
    with vc have "v\<lparr>fingerprint := Some (canonical h v)\<rparr> = v" by simp
    with own True show ?thesis by simp
  next
    case False
    with own show ?thesis by simp
  qed
  from small have d: "drop 20 (entriesByVersion (snd acc) vid) = []" by simp
  show ?thesis
  proof (cases "item_entry_correct h it")
    case True
    with own have "entriesByVersion (snd (fp_visit h now False (vid, v) acc)) vid
        = entriesByVersion (snd acc) vid" by simp
    with True ec ver show ?thesis by simp
  next
    case False
    with own d have "entriesByVersion (snd (fp_visit h now False (vid, v) acc)) vid
        = [(length (skillVersionFingerprints (snd acc)),
            \<lparr>e_skillId = v_skillId v, e_versionId = vid,
             e_fingerprint = canonical h v, createdAt = now\<rparr>)]" by simp
    with False ec ver show ?thesis by auto
  qed
qed

text \<open>
  C1, as amended. Take a version with at most 20 fingerprint entries that the fetcher
  emits: its stored fingerprint is absent or empty, or it has no entries, or its
  entries disagree among themselves, or none of them equals the stored fingerprint.
  A run that is not a dry run and reaches the version (it is among the first
  \<open>batchSize * maxBatches\<close> versions) leaves its stored fingerprint equal to the hash
  of its files and at least one entry, every entry carrying that hash: exactly one
  entry, unless the entries before the run already all carried the hash, in which
  case they are kept.
\<close>

theorem C1_fingerprint_repair:
  assumes reached: "(vid, v) \<in> set (take (effBatchSize args * effMaxBatches args)
                                    (db_docs (skillVersions st)))"
    and real: "dryRun args \<noteq> Some True"
    and small: "length (entriesByVersion st vid) \<le> 20"
    and emitted: "fingerprint v = None \<or> fingerprint v = Some [] \<or> entriesByVersion st vid = []
       \<or> (\<exists>e1\<in>set (entriesByVersion st vid). \<exists>e2\<in>set (entriesByVersion st vid).
             e_fingerprint (snd e1) \<noteq> e_fingerprint (snd e2))
       \<or> (\<forall>e\<in>set (entriesByVersion st vid). Some (e_fingerprint (snd e)) \<noteq> fingerprint v)"
  shows "db_get (skillVersions (snd (backfillSkillFingerprintsInternalHandler h now args st))) vid
       = Some (v\<lparr>fingerprint := Some (canonical h v)\<rparr>)
     \<and> entriesByVersion (snd (backfillSkillFingerprintsInternalHandler h now args st)) vid \<noteq> []
     \<and> (\<forall>e\<in>set (entriesByVersion
                   (snd (backfillSkillFingerprintsInternalHandler h now args st)) vid).
           e_fingerprint (snd e) = canonical h v)
     \<and> (if entriesByVersion st vid \<noteq> []
            \<and> (\<forall>e\<in>set (entriesByVersion st vid). e_fingerprint (snd e) = canonical h v)
         then entriesByVersion (snd (backfillSkillFingerprintsInternalHandler h now args st)) vid
              = entriesByVersion st vid
         else length (entriesByVersion
                (snd (backfillSkillFingerprintsInternalHandler h now args st)) vid) = 1)"
proof -
  let ?D = "take (effBatchSize args * effMaxBatches args) (db_docs (skillVersions st))"
  let ?st' = "snd (fold (fp_visit h now False) ?D (no_fp_stats, st))"
  from real have st': "snd (backfillSkillFingerprintsInternalHandler h now args st) = ?st'"
    by (simp add: fingerprints_handler_fold)
  have dist: "distinct (map fst ?D)"
    using db_docs_distinct [of "skillVersions st"] by (simp add: take_map [symmetric])
  from reached have "(vid, v) \<in> set (db_docs (skillVersions st))" by (rule in_set_takeD)
  then have v: "db_get (skillVersions st) vid = Some v" by (simp add: db_docs_mem)
  from fold_fp_visit_own [OF dist reached, where acc = "(no_fp_stats, st)" and h = h
      and now = now and dry = False] obtain acc1 where
    a: "db_get (skillVersions (snd acc1)) vid = db_get (skillVersions st) vid"
      "entriesByVersion (snd acc1) vid = entriesByVersion st vid"
      "db_get (skillVersions ?st') vid
         = db_get (skillVersions (snd (fp_visit h now False (vid, v) acc1))) vid"
      "entriesByVersion ?st' vid = entriesByVersion (snd (fp_visit h now False (vid, v) acc1)) vid"
    by auto
  from a(1) v have v1: "db_get (skillVersions (snd acc1)) vid = Some v" by simp
  from a(2) small have small1: "length (entriesByVersion (snd acc1) vid) \<le> 20" by simp
  have em1: "fingerprintItem (snd acc1) (vid, v) \<noteq> None"
    unfolding fingerprintItem_emitted_iff a(2) using emitted small by auto
  from fp_visit_repairs [OF v1 small1 em1, of h now]
  show ?thesis unfolding st' a(3) a(4) a(2) by simp
qed


theorem C1_fingerprint_repair_witness:
  "(0, \<lparr>v_skillId = 0,
         files = [\<lparr>path = ''x.ts'', sha256 = ''b'', storageId = 8\<rparr>,
                  \<lparr>path = ''SKILL.md'', sha256 = ''a'', storageId = 7\<rparr>],
         parsed = ''old'', fingerprint = None\<rparr>)
     \<in> set (take (effBatchSize no_args * effMaxBatches no_args)
              (db_docs (skillVersions example_store)))
   \<and> dryRun no_args \<noteq> Some True
   \<and> length (entriesByVersion example_store 0) \<le> 20
   \<and> entriesByVersion example_store 0 = []
   \<and> db_get (skillVersions (snd (backfillSkillFingerprintsInternalHandler hashSkillFiles_model 9
                                    no_args example_store))) 0
       = Some \<lparr>v_skillId = 0,
                files = [\<lparr>path = ''x.ts'', sha256 = ''b'', storageId = 8\<rparr>,
                         \<lparr>path = ''SKILL.md'', sha256 = ''a'', storageId = 7\<rparr>],
                parsed = ''old'', fingerprint = Some ''x.ts:b;SKILL.md:a;''\<rparr>
   \<and> length (entriesByVersion (snd (backfillSkillFingerprintsInternalHandler
         hashSkillFiles_model 9 no_args example_store)) 0) = 1"
proof -
  let ?v = "\<lparr>v_skillId = 0,
         files = [\<lparr>path = ''x.ts'', sha256 = ''b'', storageId = 8\<rparr>,
                  \<lparr>path = ''SKILL.md'', sha256 = ''a'', storageId = 7\<rparr>],
         parsed = ''old'', fingerprint = None\<rparr> :: string skillVersion"
  have r: "(0, ?v) \<in> set (take (effBatchSize no_args * effMaxBatches no_args)
              (db_docs (skillVersions example_store)))"
    by (simp add: example_store_def db_docs_def effBatchSize_def effMaxBatches_def no_args_def
        clamp_defs)
  have d: "dryRun no_args \<noteq> Some True" by (simp add: no_args_def)
  have e: "entriesByVersion example_store 0 = []"
    by (simp add: example_store_def entriesByVersion_def db_docs_def)
  then have s: "length (entriesByVersion example_store 0) \<le> 20" by simp
  have em: "fingerprint ?v = None \<or> fingerprint ?v = Some []
       \<or> entriesByVersion example_store 0 = []
       \<or> (\<exists>e1\<in>set (entriesByVersion example_store 0).
            \<exists>e2\<in>set (entriesByVersion example_store 0).
             e_fingerprint (snd e1) \<noteq> e_fingerprint (snd e2))
       \<or> (\<forall>e\<in>set (entriesByVersion example_store 0).
             Some (e_fingerprint (snd e)) \<noteq> fingerprint ?v)"
    by simp
  have c: "canonical hashSkillFiles_model ?v = ''x.ts:b;SKILL.md:a;''"
    by (simp add: canonical_def hashSkillFiles_model_def)
  from C1_fingerprint_repair [OF r d s em, of hashSkillFiles_model 9]
  have "db_get (skillVersions (snd (backfillSkillFingerprintsInternalHandler hashSkillFiles_model 9
                                    no_args example_store))) 0
       = Some \<lparr>v_skillId = 0,
                files = [\<lparr>path = ''x.ts'', sha256 = ''b'', storageId = 8\<rparr>,
                         \<lparr>path = ''SKILL.md'', sha256 = ''a'', storageId = 7\<rparr>],
                parsed = ''old'', fingerprint = Some ''x.ts:b;SKILL.md:a;''\<rparr>
   \<and> length (entriesByVersion (snd (backfillSkillFingerprintsInternalHandler
         hashSkillFiles_model 9 no_args example_store)) 0) = 1"
    unfolding c e by simp
  with r d s e show ?thesis by blast
qed

theorem C1_fingerprint_repair_counterexample:
  "db_docs (skillVersions stale_store)
     = [(0, \<lparr>v_skillId = 0, files = [\<lparr>path = ''a'', sha256 = ''1'', storageId = 0\<rparr>],
              parsed = ''p'', fingerprint = Some ''old''\<rparr>)]
   \<and> Some ''old'' \<noteq> Some (hashSkillFiles_model [(''a'', ''1'')])
   \<and> backfillSkillFingerprintsInternalHandler hashSkillFiles_model 9 no_args stale_store
     = (Inr \<lparr>versionsScanned = 0, fp_versionsPatched = 0, fingerprintsInserted = 0,
              fingerprintMismatches = 0\<rparr>, stale_store)"
  by (simp add: stale_store_def fp_run_eval)

section \<open>Summary backfill: the run as a sequence of visits\<close>

lemma classifySkill_cong:
  "(\<And>u. latestVersionId sk = Some u \<Longrightarrow>
      db_get (skillVersions st) u = db_get (skillVersions st') u) \<Longrightarrow>
   classifySkill st (sid, sk) = classifySkill st' (sid, sk)"
  by (cases "latestVersionId sk") (simp_all add: classifySkill_def)

lemma classifySkill_ids:
  "classifySkill st (sid, sk) = ItemOk a b s p r \<Longrightarrow> a = sid \<and> latestVersionId sk = Some b"
  by (auto simp: classifySkill_def split: option.splits)

lemma summaries_item_dry: "snd (summaries_item build now True item acc) = snd acc"
  by (cases item) (simp_all add: summaries_item_def Let_def split: option.splits)

lemma summaries_item_count:
  "storage st' = storage (snd acc) \<Longrightarrow>
   fst (summaries_item build now dry item acc)
     = fst (summaries_item build now' dry' item (fst acc, st'))"
  by (cases item) (simp_all add: summaries_item_def Let_def split: option.splits)

lemma db_get_patch_other: "w \<noteq> k \<Longrightarrow> db_get (db_patch t k f) w = db_get t w"
  by (simp add: db_get_patch)

lemma summaries_item_others:
  assumes "item = classifySkill st0 (sid, sk)"
  shows "(\<forall>w. w \<noteq> sid \<longrightarrow>
            db_get (skills (snd (summaries_item build now dry item acc))) w
              = db_get (skills (snd acc)) w)
       \<and> (\<forall>u. latestVersionId sk \<noteq> Some u \<longrightarrow>
            db_get (skillVersions (snd (summaries_item build now dry item acc))) u
              = db_get (skillVersions (snd acc)) u)"
proof (cases item)
  case (ItemOk a b s p r)
  with assms classifySkill_ids [of st0 sid sk a b s p r]
  have ids: "a = sid" "latestVersionId sk = Some b" by simp_all
  show ?thesis
    unfolding ItemOk ids(1)
    using ids(2)
    by (auto simp: summaries_item_def applySkillBackfillPatchInternal_def Let_def
        db_get_patch_other split: option.splits)
qed (simp_all add: summaries_item_def Let_def)

lemma sm_visit_frame:
  "storage (snd (sm_visit build now dry (sid, sk) acc)) = storage (snd acc)
   \<and> skillVersionFingerprints (snd (sm_visit build now dry (sid, sk) acc))
       = skillVersionFingerprints (snd acc)
   \<and> map fst (db_docs (skills (snd (sm_visit build now dry (sid, sk) acc))))
       = map fst (db_docs (skills (snd acc)))
   \<and> map fst (db_docs (skillVersions (snd (sm_visit build now dry (sid, sk) acc))))
       = map fst (db_docs (skillVersions (snd acc)))
   \<and> (\<forall>w. w \<noteq> sid \<longrightarrow>
        db_get (skills (snd (sm_visit build now dry (sid, sk) acc))) w
          = db_get (skills (snd acc)) w)
   \<and> (\<forall>u. latestVersionId sk \<noteq> Some u \<longrightarrow>
        db_get (skillVersions (snd (sm_visit build now dry (sid, sk) acc))) u
          = db_get (skillVersions (snd acc)) u)"
  unfolding sm_visit_def
  using summaries_item_frame [of build now dry "classifySkill (snd acc) (sid, sk)" acc]
    summaries_item_others [OF refl, where build = build and now = now and dry = dry
      and ?st0.0 = "snd acc" and sid = sid and sk = sk and acc = acc]
  by blast

lemma fold_sm_visit_frame:
  "storage (snd (fold (sm_visit build now dry) D acc)) = storage (snd acc)
   \<and> skillVersionFingerprints (snd (fold (sm_visit build now dry) D acc))
       = skillVersionFingerprints (snd acc)
   \<and> map fst (db_docs (skills (snd (fold (sm_visit build now dry) D acc))))
       = map fst (db_docs (skills (snd acc)))
   \<and> map fst (db_docs (skillVersions (snd (fold (sm_visit build now dry) D acc))))
       = map fst (db_docs (skillVersions (snd acc)))
   \<and> (\<forall>w. w \<notin> fst ` set D \<longrightarrow>
        db_get (skills (snd (fold (sm_visit build now dry) D acc))) w
          = db_get (skills (snd acc)) w)
   \<and> (\<forall>u. Some u \<notin> (\<lambda>d. latestVersionId (snd d)) ` set D \<longrightarrow>
        db_get (skillVersions (snd (fold (sm_visit build now dry) D acc))) u
          = db_get (skillVersions (snd acc)) u)"
proof (induction D arbitrary: acc)
  case Nil
  then show ?case by simp
next
  case (Cons d D)
  obtain sid sk where d: "d = (sid, sk)" by (cases d)
  note IH = Cons [of "sm_visit build now dry (sid, sk) acc"]
  note fr = sm_visit_frame [of build now dry sid sk acc]
  have a: "\<forall>w. w \<notin> fst ` set (d # D) \<longrightarrow>
        db_get (skills (snd (fold (sm_visit build now dry) (d # D) acc))) w
          = db_get (skills (snd acc)) w"
  proof (intro allI impI)
    fix w assume "w \<notin> fst ` set (d # D)"
    then have "w \<noteq> sid" "w \<notin> fst ` set D" unfolding d by auto
    with IH fr show "db_get (skills (snd (fold (sm_visit build now dry) (d # D) acc))) w
          = db_get (skills (snd acc)) w" unfolding d by simp
  qed
  have b: "\<forall>u. Some u \<notin> (\<lambda>d. latestVersionId (snd d)) ` set (d # D) \<longrightarrow>
        db_get (skillVersions (snd (fold (sm_visit build now dry) (d # D) acc))) u
          = db_get (skillVersions (snd acc)) u"
  proof (intro allI impI)
    fix u assume "Some u \<notin> (\<lambda>d. latestVersionId (snd d)) ` set (d # D)"
    then have "latestVersionId sk \<noteq> Some u" "Some u \<notin> (\<lambda>d. latestVersionId (snd d)) ` set D"
      unfolding d by auto
    with IH fr show "db_get (skillVersions (snd (fold (sm_visit build now dry) (d # D) acc))) u
          = db_get (skillVersions (snd acc)) u" unfolding d by simp
  qed
  from IH fr a b show ?case unfolding d by simp
qed

lemma set_map_filter: "(y \<in> set (List.map_filter f xs)) = (\<exists>x\<in>set xs. f x = Some y)"
  by (induction xs) (auto simp: map_filter_simps split: option.splits)

lemma no_shared_version_Cons:
  "no_shared_version ((sid, sk) # D) \<Longrightarrow>
   no_shared_version D \<and> (\<forall>u. latestVersionId sk = Some u \<longrightarrow>
      Some u \<notin> (\<lambda>d. latestVersionId (snd d)) ` set D)"
proof (cases "latestVersionId sk")
  case None
  assume "no_shared_version ((sid, sk) # D)"
  with None show ?thesis by (simp add: no_shared_version_def map_filter_simps)
next
  case (Some u)
  assume "no_shared_version ((sid, sk) # D)"
  with Some have "u \<notin> set (List.map_filter (\<lambda>d. latestVersionId (snd d)) D)"
    and "no_shared_version D"
    by (simp_all add: no_shared_version_def map_filter_simps)
  then show ?thesis
    unfolding set_map_filter using Some by force
qed

lemma no_shared_version_drop: "no_shared_version D \<Longrightarrow> no_shared_version (drop n D)"
  unfolding no_shared_version_def map_filter_def
  by (metis append_take_drop_id distinct_append filter_append map_append)

lemma no_shared_version_take: "no_shared_version D \<Longrightarrow> no_shared_version (take n D)"
  unfolding no_shared_version_def map_filter_def
  by (metis append_take_drop_id distinct_append filter_append map_append)

lemma pos_of_Some: "pos_of (Some k) = k"
  by (simp add: pos_of_def)

lemma sm_page_visits:
  "no_shared_version D \<Longrightarrow>
   \<forall>d\<in>set D. \<forall>u. latestVersionId (snd d) = Some u \<longrightarrow>
      db_get (skillVersions (snd acc)) u = db_get (skillVersions st0) u \<Longrightarrow>
   fold (summaries_item build now dry) (map (classifySkill st0) D) acc
     = fold (sm_visit build now dry) D acc"
proof (induction D arbitrary: acc)
  case Nil
  show ?case by simp
next
  case (Cons d D)
  obtain sid sk where d: "d = (sid, sk)" by (cases d)
  let ?acc1 = "sm_visit build now dry (sid, sk) acc"
  from Cons.prems(2) have "\<And>u. latestVersionId sk = Some u \<Longrightarrow>
      db_get (skillVersions st0) u = db_get (skillVersions (snd acc)) u"
    unfolding d by simp
  then have same: "classifySkill st0 (sid, sk) = classifySkill (snd acc) (sid, sk)"
    by (rule classifySkill_cong)
  from no_shared_version_Cons [of sid sk D] Cons.prems(1)
  have ns: "no_shared_version D"
    and other: "\<forall>u. latestVersionId sk = Some u \<longrightarrow>
      Some u \<notin> (\<lambda>d. latestVersionId (snd d)) ` set D"
    unfolding d by blast+
  have rest: "\<forall>e\<in>set D. \<forall>u. latestVersionId (snd e) = Some u \<longrightarrow>
      db_get (skillVersions (snd ?acc1)) u = db_get (skillVersions st0) u"
  proof (intro ballI allI impI)
    fix e u assume e: "e \<in> set D" and u: "latestVersionId (snd e) = Some u"
    from e u have "Some u \<in> (\<lambda>d. latestVersionId (snd d)) ` set D" by force
    with other have "latestVersionId sk \<noteq> Some u" by blast
    with sm_visit_frame [of build now dry sid sk acc]
    have "db_get (skillVersions (snd ?acc1)) u = db_get (skillVersions (snd acc)) u" by blast
    moreover from Cons.prems(2) e u
    have "db_get (skillVersions (snd acc)) u = db_get (skillVersions st0) u" by simp
    ultimately show "db_get (skillVersions (snd ?acc1)) u = db_get (skillVersions st0) u"
      by simp
  qed
  have IH: "fold (summaries_item build now dry) (map (classifySkill st0) D) ?acc1
      = fold (sm_visit build now dry) D ?acc1"
    using ns rest by (rule Cons.IH)
  have "fold (summaries_item build now dry) (map (classifySkill st0) ((sid, sk) # D)) acc
      = fold (summaries_item build now dry) (map (classifySkill st0) D) ?acc1"
    by (simp add: same sm_visit_def)
  with IH show ?case unfolding d by simp
qed

lemma summaries_batches_fold:
  assumes bs: "clampBatchSize (Some bs) = bs" and n: "0 < count_of bs"
  shows "no_shared_version (drop (pos_of c) (db_docs (skills (snd acc)))) \<Longrightarrow>
   summaries_batches build now dry bs k c fin acc =
     ((if k = 0 then fin
       else length (db_docs (skills (snd acc))) - pos_of c \<le> count_of bs * k),
      fold (sm_visit build now dry)
        (take (count_of bs * k) (drop (pos_of c) (db_docs (skills (snd acc))))) acc)"
proof (induction k arbitrary: c fin acc)
  case 0
  then show ?case by simp
next
  case (Suc k)
  let ?n = "count_of bs"
  let ?docs = "db_docs (skills (snd acc))"
  let ?P = "take ?n (drop (pos_of c) ?docs)"
  let ?page = "getSkillBackfillPageInternal (snd acc) c (Some bs)"
  let ?acc' = "fold (sm_visit build now dry) ?P acc"
  have items: "items ?page = map (classifySkill (snd acc)) ?P"
    and isDone: "isDone ?page = (length ?docs - pos_of c \<le> ?n)"
    and cursor: "cursor ?page = Some (pos_of c + min ?n (length ?docs - pos_of c))"
    by (simp_all add: getSkillBackfillPageInternal_def Let_def bs paginate_simps)
  from Suc.prems have nsP: "no_shared_version ?P" by (rule no_shared_version_take)
  have acc': "fold (summaries_item build now dry) (items ?page) acc = ?acc'"
    unfolding items by (rule sm_page_visits [OF nsP]) simp
  show ?case
  proof (cases "length ?docs - pos_of c \<le> ?n")
    case True
    then have "take (?n * Suc k) (drop (pos_of c) ?docs) = ?P"
      by (simp add: trans_le_add1)
    moreover from True have "length ?docs - pos_of c \<le> ?n * Suc k"
      by (simp add: trans_le_add1)
    ultimately show ?thesis
      using True by (simp add: Let_def isDone acc')
  next
    case False
    let ?docs' = "db_docs (skills (snd ?acc'))"
    note fr = fold_sm_visit_frame [of build now dry ?P acc]
    from fr have ids: "map fst ?docs' = map fst ?docs" by blast
    then have len: "length ?docs' = length ?docs" by (metis length_map)
    have "distinct (map fst ?docs)" by (rule db_docs_distinct)
    then have dd: "distinct (map fst (drop (pos_of c) ?docs))" by (simp add: drop_map [symmetric])
    have "\<forall>i \<in> fst ` set (drop (pos_of c + ?n) ?docs). i \<notin> fst ` set ?P"
    proof
      fix i assume i: "i \<in> fst ` set (drop (pos_of c + ?n) ?docs)"
      have "distinct (map fst (take ?n (drop (pos_of c) ?docs))
          @ map fst (drop ?n (drop (pos_of c) ?docs)))"
        using dd by (metis append_take_drop_id map_append)
      with i show "i \<notin> fst ` set ?P" by (auto simp: add.commute)
    qed
    with fr have "\<forall>i \<in> fst ` set (drop (pos_of c + ?n) ?docs).
        db_get (skills (snd ?acc')) i = db_get (skills (snd acc)) i"
      by blast
    with ids have drop': "drop (pos_of c + ?n) ?docs' = drop (pos_of c + ?n) ?docs"
      by (rule docs_drop_eq)
    have "no_shared_version (drop ?n (drop (pos_of c) ?docs))"
      using Suc.prems by (rule no_shared_version_drop)
    then have "no_shared_version (drop (pos_of c + ?n) ?docs)"
      by (simp add: add.commute)
    then have "no_shared_version (drop (pos_of c + ?n) ?docs')"
      by (simp only: drop')
    then have ns': "no_shared_version (drop (pos_of (Some (pos_of c + ?n))) ?docs')"
      by (simp only: pos_of_Some)
    from False have m: "min ?n (length ?docs - pos_of c) = ?n" by simp
    have "summaries_batches build now dry bs (Suc k) c fin acc
        = summaries_batches build now dry bs k (Some (pos_of c + ?n)) False ?acc'"
      using False by (simp add: Let_def isDone acc' cursor m)
    also have "\<dots> = ((if k = 0 then False
          else length ?docs' - (pos_of c + ?n) \<le> ?n * k),
        fold (sm_visit build now dry) (take (?n * k) (drop (pos_of c + ?n) ?docs')) ?acc')"
      using Suc.IH [OF ns', of False] by (simp add: pos_of_def)
    also have "\<dots> = (length ?docs - pos_of c \<le> ?n * Suc k,
        fold (sm_visit build now dry) (take (?n * Suc k) (drop (pos_of c) ?docs)) acc)"
    proof -
      have flag: "(if k = 0 then False else length ?docs' - (pos_of c + ?n) \<le> ?n * k)
          = (length ?docs - pos_of c \<le> ?n * Suc k)"
        using False len by (cases k) auto
      have "take (?n * Suc k) (drop (pos_of c) ?docs)
          = ?P @ take (?n * k) (drop (pos_of c + ?n) ?docs)"
        by (simp add: take_add add.commute)
      then have "fold (sm_visit build now dry) (take (?n * Suc k) (drop (pos_of c) ?docs)) acc
          = fold (sm_visit build now dry) (take (?n * k) (drop (pos_of c + ?n) ?docs)) ?acc'"
        by simp
      with flag drop' show ?thesis by simp
    qed
    finally show ?thesis by simp
  qed
qed

lemma summaries_handler_fold:
  assumes "no_shared_version (db_docs (skills st))"
  shows "backfillSkillSummariesInternalHandler build now args st =
     (if length (db_docs (skills st)) \<le> effBatchSize args * effMaxBatches args
      then Inr (fst (fold (sm_visit build now (dryRun args = Some True))
                  (take (effBatchSize args * effMaxBatches args) (db_docs (skills st)))
                  (no_stats, st)))
      else Inl incomplete,
      snd (fold (sm_visit build now (dryRun args = Some True))
             (take (effBatchSize args * effMaxBatches args) (db_docs (skills st)))
             (no_stats, st)))"
proof -
  have bs: "clampBatchSize (Some (clampBatchSize (batchSize args))) = clampBatchSize (batchSize args)"
    by simp
  have n: "0 < count_of (clampBatchSize (batchSize args))"
    using effBatchSize_pos [of args] by (simp add: effBatchSize_def)
  have m: "effMaxBatches args \<noteq> 0" using effMaxBatches_pos [of args] by simp
  from assms have ns: "no_shared_version (drop (pos_of None) (db_docs (skills (snd (no_stats, st)))))"
    by (simp add: pos_of_def)
  show ?thesis
    unfolding backfillSkillSummariesInternalHandler_def Let_def
      summaries_batches_fold [OF bs n ns]
    using m by (simp add: effBatchSize_def effMaxBatches_def pos_of_def)
qed

section \<open>Dry runs\<close>

lemma fold_fp_visit_dry: "snd (fold (fp_visit h now True) D acc) = snd acc"
  by (induction D arbitrary: acc) (simp_all add: fp_visit_dry)

lemma fp_visit_count_cong:
  "entriesByVersion st vid = entriesByVersion st' vid \<Longrightarrow>
   fst (fp_visit h now dry (vid, v) (tot, st)) = fst (fp_visit h now' dry' (vid, v) (tot, st'))"
proof -
  assume "entriesByVersion st vid = entriesByVersion st' vid"
  then have "fingerprintItem st (vid, v) = fingerprintItem st' (vid, v)"
    by (rule fingerprintItem_cong)
  then show ?thesis by (simp add: fp_visit_count split: option.splits)
qed

lemma fold_fp_visit_stats:
  "distinct (map fst D) \<Longrightarrow>
   \<forall>d\<in>set D. entriesByVersion st (fst d) = entriesByVersion st' (fst d) \<Longrightarrow>
   fst (fold (fp_visit h now dry) D (tot, st)) = fst (fold (fp_visit h now' True) D (tot, st'))"
proof (induction D arbitrary: tot st)
  case Nil
  show ?case by simp
next
  case (Cons d D)
  obtain vid v where d: "d = (vid, v)" by (cases d)
  let ?a = "fp_visit h now dry (vid, v) (tot, st)"
  let ?b = "fp_visit h now' True (vid, v) (tot, st')"
  from Cons.prems(2) have e: "entriesByVersion st vid = entriesByVersion st' vid"
    unfolding d by simp
  have f: "fst ?a = fst ?b" using e by (rule fp_visit_count_cong)
  have s: "snd ?b = st'" by (simp add: fp_visit_dry)
  from Cons.prems(1) have dist: "distinct (map fst D)" and nin: "vid \<notin> fst ` set D"
    unfolding d by simp_all
  have rest: "\<forall>e\<in>set D. entriesByVersion (snd ?a) (fst e) = entriesByVersion st' (fst e)"
  proof
    fix e assume e: "e \<in> set D"
    with nin have "fst e \<noteq> vid" by blast
    with fp_visit_frame [of h now dry vid v "(tot, st)"]
    have "entriesByVersion (snd ?a) (fst e) = entriesByVersion st (fst e)" by simp
    with Cons.prems(2) e show "entriesByVersion (snd ?a) (fst e) = entriesByVersion st' (fst e)"
      by simp
  qed
  have "fst (fold (fp_visit h now dry) D (fst ?a, snd ?a))
      = fst (fold (fp_visit h now' True) D (fst ?a, st'))"
    using dist rest by (rule Cons.IH)
  then have "fst (fold (fp_visit h now dry) D ?a) = fst (fold (fp_visit h now' True) D ?b)"
    using f s by (metis prod.collapse)
  then show ?case unfolding d by simp
qed

lemma fold_summaries_item_dry:
  "snd (fold (summaries_item build now True) its acc) = snd acc"
  by (induction its arbitrary: acc) (simp_all add: summaries_item_dry)

lemma summaries_batches_dry:
  "snd (snd (summaries_batches build now True bs k c fin acc)) = snd acc"
  by (induction k arbitrary: c fin acc) (simp_all add: Let_def fold_summaries_item_dry)

lemma sm_visit_dry: "snd (sm_visit build now True d acc) = snd acc"
  by (simp add: sm_visit_def summaries_item_dry)

lemma sm_visit_count_cong:
  assumes "storage st' = storage st"
    and "\<And>u. latestVersionId sk = Some u \<Longrightarrow>
           db_get (skillVersions st) u = db_get (skillVersions st') u"
  shows "fst (sm_visit build now dry (sid, sk) (tot, st))
     = fst (sm_visit build now' dry' (sid, sk) (tot, st'))"
proof -
  have "classifySkill st (sid, sk) = classifySkill st' (sid, sk)"
    using assms(2) by (rule classifySkill_cong)
  then show ?thesis
    unfolding sm_visit_def
    using summaries_item_count [of st' "(tot, st)" build now dry "classifySkill st' (sid, sk)"
        now' dry'] assms(1)
    by simp
qed

lemma fold_sm_visit_stats:
  "no_shared_version D \<Longrightarrow> storage st' = storage st \<Longrightarrow>
   \<forall>d\<in>set D. \<forall>u. latestVersionId (snd d) = Some u \<longrightarrow>
      db_get (skillVersions st) u = db_get (skillVersions st') u \<Longrightarrow>
   fst (fold (sm_visit build now dry) D (tot, st))
     = fst (fold (sm_visit build now' True) D (tot, st'))"
proof (induction D arbitrary: tot st)
  case Nil
  show ?case by simp
next
  case (Cons d D)
  obtain sid sk where d: "d = (sid, sk)" by (cases d)
  let ?a = "sm_visit build now dry (sid, sk) (tot, st)"
  let ?b = "sm_visit build now' True (sid, sk) (tot, st')"
  from Cons.prems(3) have e: "\<And>u. latestVersionId sk = Some u \<Longrightarrow>
      db_get (skillVersions st) u = db_get (skillVersions st') u"
    unfolding d by simp
  have f: "fst ?a = fst ?b" using Cons.prems(2) e by (rule sm_visit_count_cong)
  have s: "snd ?b = st'" by (simp add: sm_visit_dry)
  from no_shared_version_Cons [of sid sk D] Cons.prems(1)
  have ns: "no_shared_version D"
    and other: "\<forall>u. latestVersionId sk = Some u \<longrightarrow>
      Some u \<notin> (\<lambda>d. latestVersionId (snd d)) ` set D"
    unfolding d by blast+
  note fr = sm_visit_frame [of build now dry sid sk "(tot, st)"]
  from fr Cons.prems(2) have sto: "storage st' = storage (snd ?a)" by simp
  have rest: "\<forall>e\<in>set D. \<forall>u. latestVersionId (snd e) = Some u \<longrightarrow>
      db_get (skillVersions (snd ?a)) u = db_get (skillVersions st') u"
  proof (intro ballI allI impI)
    fix e u assume e: "e \<in> set D" and u: "latestVersionId (snd e) = Some u"
    from e u have "Some u \<in> (\<lambda>d. latestVersionId (snd d)) ` set D" by force
    with other have "latestVersionId sk \<noteq> Some u" by blast
    with fr have "db_get (skillVersions (snd ?a)) u = db_get (skillVersions st) u" by simp
    with Cons.prems(3) e u show "db_get (skillVersions (snd ?a)) u = db_get (skillVersions st') u"
      by simp
  qed
  have "fst (fold (sm_visit build now dry) D (fst ?a, snd ?a))
      = fst (fold (sm_visit build now' True) D (fst ?a, st'))"
    using ns sto rest by (rule Cons.IH)
  then have "fst (fold (sm_visit build now dry) D ?a) = fst (fold (sm_visit build now' True) D ?b)"
    using f s by (metis prod.collapse)
  then show ?case unfolding d by simp
qed

text \<open>
  C3, as amended. A run with \<open>dryRun = true\<close> of either backfill job returns the store
  it was given. The stats of a dry fingerprint run are the stats of a run over the
  same store with the same batch arguments and any other \<open>dryRun\<close>; the same holds of
  the summary run on a store where no two skills name the same latest version.
\<close>

theorem C3_dry_run:
  assumes "dryRun args = Some True"
  shows "snd (backfillSkillSummariesInternalHandler build now args st) = st
     \<and> snd (backfillSkillFingerprintsInternalHandler h now args st) = st
     \<and> fst (backfillSkillFingerprintsInternalHandler h now args st)
         = fst (backfillSkillFingerprintsInternalHandler h now' (args\<lparr>dryRun := d\<rparr>) st)
     \<and> (no_shared_version (db_docs (skills st)) \<longrightarrow>
          fst (backfillSkillSummariesInternalHandler build now args st)
            = fst (backfillSkillSummariesInternalHandler build now' (args\<lparr>dryRun := d\<rparr>) st))"
proof -
  have eff: "effBatchSize (args\<lparr>dryRun := d\<rparr>) = effBatchSize args"
    "effMaxBatches (args\<lparr>dryRun := d\<rparr>) = effMaxBatches args"
    by (simp_all add: effBatchSize_def effMaxBatches_def)
  have a: "snd (backfillSkillSummariesInternalHandler build now args st) = st"
    using assms by (simp add: backfillSkillSummariesInternalHandler_def Let_def
        summaries_batches_dry)
  have b: "snd (backfillSkillFingerprintsInternalHandler h now args st) = st"
    using assms by (simp add: fingerprints_handler_fold fold_fp_visit_dry)
  let ?V = "take (effBatchSize args * effMaxBatches args) (db_docs (skillVersions st))"
  have "distinct (map fst ?V)"
    using db_docs_distinct [of "skillVersions st"] by (simp add: take_map [symmetric])
  then have "fst (fold (fp_visit h now' (d = Some True)) ?V (no_fp_stats, st))
      = fst (fold (fp_visit h now True) ?V (no_fp_stats, st))"
    by (rule fold_fp_visit_stats) simp
  then have c: "fst (backfillSkillFingerprintsInternalHandler h now args st)
         = fst (backfillSkillFingerprintsInternalHandler h now' (args\<lparr>dryRun := d\<rparr>) st)"
    using assms by (simp add: fingerprints_handler_fold eff del: take_all)
  have e: "no_shared_version (db_docs (skills st)) \<longrightarrow>
          fst (backfillSkillSummariesInternalHandler build now args st)
            = fst (backfillSkillSummariesInternalHandler build now' (args\<lparr>dryRun := d\<rparr>) st)"
  proof
    assume ns: "no_shared_version (db_docs (skills st))"
    let ?S = "take (effBatchSize args * effMaxBatches args) (db_docs (skills st))"
    from ns have "no_shared_version ?S" by (rule no_shared_version_take)
    then have "fst (fold (sm_visit build now' (d = Some True)) ?S (no_stats, st))
        = fst (fold (sm_visit build now True) ?S (no_stats, st))"
      by (rule fold_sm_visit_stats) simp_all
    then show "fst (backfillSkillSummariesInternalHandler build now args st)
            = fst (backfillSkillSummariesInternalHandler build now' (args\<lparr>dryRun := d\<rparr>) st)"
      using assms ns by (simp add: summaries_handler_fold eff del: take_all)
  qed
  from a b c e show ?thesis by blast
qed


lemma summaries_batches_unfold:
  "0 < k \<Longrightarrow>
   summaries_batches build now dry bs k c fin acc =
     (let page = getSkillBackfillPageInternal (snd acc) c (Some bs);
          acc' = fold (summaries_item build now dry) (items page) acc
      in if isDone page then (True, acc')
         else summaries_batches build now dry bs (k - 1) (cursor page) False acc')"
  by (cases k) (simp_all add: Let_def)

lemmas sm_run_eval = backfillSkillSummariesInternalHandler_def summaries_batches_unfold
  getSkillBackfillPageInternal_def paginate_def classifySkill_def isReadme_def toLowerCase_def
  toLowerCase_char_def summaries_item_def applySkillBackfillPatchInternal_def
  buildSkillSummaryBackfillPatch_model_def truthy_def clamp_defs db_docs_def db_get_def
  db_patch_def Let_def no_stats_def

theorem C3_dry_run_witness:
  "dryRun dry_args = Some True
   \<and> no_shared_version (db_docs (skills example_store))
   \<and> snd (backfillSkillSummariesInternalHandler buildSkillSummaryBackfillPatch_model 9 dry_args
            example_store) = example_store
   \<and> snd (backfillSkillFingerprintsInternalHandler hashSkillFiles_model 9 dry_args
            example_store) = example_store
   \<and> fst (backfillSkillFingerprintsInternalHandler hashSkillFiles_model 9 dry_args example_store)
       = fst (backfillSkillFingerprintsInternalHandler hashSkillFiles_model 10
                (dry_args\<lparr>dryRun := Some False\<rparr>) example_store)
   \<and> fst (backfillSkillSummariesInternalHandler buildSkillSummaryBackfillPatch_model 9 dry_args
            example_store)
       = fst (backfillSkillSummariesInternalHandler buildSkillSummaryBackfillPatch_model 10
                (dry_args\<lparr>dryRun := Some False\<rparr>) example_store)
   \<and> fst (backfillSkillSummariesInternalHandler buildSkillSummaryBackfillPatch_model 9 dry_args
            example_store)
       = Inr \<lparr>skillsScanned = 4, skillsPatched = 1, versionsPatched = 1,
              missingLatestVersion = 2, missingReadme = 1, missingStorageBlob = 0\<rparr>"
proof -
  have d: "dryRun dry_args = Some True" by (simp add: dry_args_def)
  have ns: "no_shared_version (db_docs (skills example_store))"
    by (simp add: no_shared_version_def example_store_def db_docs_def map_filter_def)
  note C = C3_dry_run [OF d, where build = buildSkillSummaryBackfillPatch_model and now = 9
      and st = example_store and h = hashSkillFiles_model and now' = 10 and d = "Some False"]
  have ev: "fst (backfillSkillSummariesInternalHandler buildSkillSummaryBackfillPatch_model 9
            dry_args example_store)
       = Inr \<lparr>skillsScanned = 4, skillsPatched = 1, versionsPatched = 1,
              missingLatestVersion = 2, missingReadme = 1, missingStorageBlob = 0\<rparr>"
    by (simp add: dry_args_def example_store_def sm_run_eval)
  from C d ns ev show ?thesis by blast
qed

theorem C3_dry_run_counterexample:
  "backfillSkillSummariesInternalHandler buildSkillSummaryBackfillPatch_model 9
      (one_by_one True) shared_version_store
     = (Inr \<lparr>skillsScanned = 2, skillsPatched = 2, versionsPatched = 2,
              missingLatestVersion = 0, missingReadme = 0, missingStorageBlob = 0\<rparr>,
        shared_version_store)
   \<and> fst (backfillSkillSummariesInternalHandler buildSkillSummaryBackfillPatch_model 9
            (one_by_one False) shared_version_store)
     = Inr \<lparr>skillsScanned = 2, skillsPatched = 2, versionsPatched = 1,
             missingLatestVersion = 0, missingReadme = 0, missingStorageBlob = 0\<rparr>"
  by (simp add: one_by_one_def shared_version_store_def sm_run_eval)

section \<open>Fingerprint backfill: a second run\<close>







section \<open>Summary backfill: a second run\<close>


















end
